theory Spec2Isabelle
  imports Main "HOL-Library.AList"
begin

section \<open>Values\<close>

text \<open>
  The values that travel through \<^verbatim>\<open>src/src/index.ts\<close>: JavaScript primitives, arrays
  and plain objects, and the wrapper objects of neo4j-driver that the normalizer tests for.
  An object is the list of its own enumerable properties in enumeration order (keys are
  distinct in a JavaScript object). A number is given by its value, an integer: the only
  numbers the code computes are the values of safe integers, which a double holds
  exactly, and the lengths of arrays. The code asks of a number only whether it is
  truthy; a number that is not an integer is truthy like every integer but 0, and
  \<^verbatim>\<open>NaN\<close> is falsy like 0.

  The driver's wrappers:
  \<^item> \<open>VInt i\<close>: an \<^verbatim>\<open>Integer\<close> (\<^verbatim>\<open>neo4j.isInt\<close>), a 64-bit integer kept as the two
    numbers \<^verbatim>\<open>low\<close> and \<open>high\<close>; here by its value \<open>i\<close>;
  \<^item> \<open>VTemporal k s\<close>: a \<^verbatim>\<open>Date\<close>, \<^verbatim>\<open>DateTime\<close>, \<^verbatim>\<open>LocalTime\<close>, \<^verbatim>\<open>LocalDateTime\<close>,
    \<^verbatim>\<open>Time\<close>, \<^verbatim>\<open>Duration\<close> or \<^verbatim>\<open>Point\<close> object, by its kind and by the string \<open>s\<close>
    that its \<^verbatim>\<open>toString()\<close> returns;
  \<^item> \<open>VNode i ls ps\<close>: a \<^verbatim>\<open>neo4j.types.Node\<close> with identity, labels and the own
    properties of its \<^verbatim>\<open>properties\<close> object.
\<close>

datatype temporal_kind = Date | DateTime | LocalTime | LocalDateTime | Time | Duration | Point

datatype jsval =
    VNull
  | VUndefined
  | VBool bool
  | VNum int
  | VStr string
  | VArr "jsval list"
  | VObj "(string \<times> jsval) list"
  | VInt int
  | VTemporal temporal_kind string
  | VNode int "string list" "(string \<times> jsval) list"

subsection \<open>The driver's integer operations\<close>

text \<open>
  Modelled from the spec: \<^verbatim>\<open>neo4j.integer.inSafeRange\<close>, \<^verbatim>\<open>Integer.toNumber\<close> and
  \<^verbatim>\<open>Integer.toString\<close> belong to neo4j-driver, which is not among the sources. The safe
  integer range is that of JavaScript, from \<open>-(2^53 - 1)\<close> to \<open>2^53 - 1\<close>;
  \<^verbatim>\<open>toNumber\<close> is exact there; \<^verbatim>\<open>toString\<close> is the decimal representation.
\<close>

definition MAX_SAFE_VALUE :: int where
  "MAX_SAFE_VALUE = 2 ^ 53 - 1"

definition MIN_SAFE_VALUE :: int where
  "MIN_SAFE_VALUE = - (2 ^ 53 - 1)"

definition inSafeRange :: "int \<Rightarrow> bool" where
  "inSafeRange i \<longleftrightarrow> MIN_SAFE_VALUE \<le> i \<and> i \<le> MAX_SAFE_VALUE"

definition toNumber :: "int \<Rightarrow> jsval" where
  "toNumber i = VNum i"

definition digit_char :: "nat \<Rightarrow> char" where
  "digit_char d = char_of (48 + d)"

function dec_nat :: "nat \<Rightarrow> string" where
  "dec_nat n = (if n < 10 then [digit_char n] else dec_nat (n div 10) @ [digit_char (n mod 10)])"
  by pat_completeness auto
termination
  by (relation "measure (\<lambda>n. n)") auto

declare dec_nat.simps [simp del]

definition Integer_toString :: "int \<Rightarrow> string" where
  "Integer_toString i = (if i < 0 then CHR ''-'' # dec_nat (nat (- i)) else dec_nat (nat i))"

text \<open>Reading a decimal numeral back, to say what "exact" means for \<open>Integer_toString\<close>.\<close>

definition digit_val :: "char \<Rightarrow> nat" where
  "digit_val c = of_char c - 48"

definition nat_of_dec :: "string \<Rightarrow> nat" where
  "nat_of_dec s = foldl (\<lambda>acc c. 10 * acc + digit_val c) 0 s"


section \<open>The result normalizer\<close>

subsection \<open>\<^verbatim>\<open>convertValues\<close> of \<^verbatim>\<open>src/src/index.ts\<close>\<close>

text \<open>
  The branches in the order of the source: \<^verbatim>\<open>null\<close>; driver integer; temporal and spatial
  values; a Node is replaced by its properties; an array is mapped; any other object has
  each own property replaced by its converted value and is returned; everything else
  (\<^verbatim>\<open>undefined\<close>, booleans, numbers, strings) is returned as it is.
\<close>

fun convertValues :: "jsval \<Rightarrow> jsval" where
  "convertValues VNull = VNull"
| "convertValues (VInt i) = (if inSafeRange i then toNumber i else VStr (Integer_toString i))"
| "convertValues (VTemporal k s) = VStr s"
| "convertValues (VNode i ls ps) = VObj (map (\<lambda>(k, v). (k, convertValues v)) ps)"
| "convertValues (VArr xs) = VArr (map convertValues xs)"
| "convertValues (VObj fs) = VObj (map (\<lambda>(k, v). (k, convertValues v)) fs)"
| "convertValues v = v"

subsection \<open>\<^verbatim>\<open>convertValues\<close> of \<^verbatim>\<open>src/index.js\<close>\<close>

text \<open>
  The older file has no \<^verbatim>\<open>null\<close> test in front and no branch for temporal values. Its
  order: driver integer; Node; array; then \<^verbatim>\<open>typeof value === 'object' && value !== null\<close>,
  which holds for a temporal object too: the loop assigns to its properties and the object
  itself is returned.
\<close>

fun convertValues_js :: "jsval \<Rightarrow> jsval" where
  "convertValues_js (VInt i) = (if inSafeRange i then toNumber i else VStr (Integer_toString i))"
| "convertValues_js (VNode i ls ps) = VObj (map (\<lambda>(k, v). (k, convertValues_js v)) ps)"
| "convertValues_js (VArr xs) = VArr (map convertValues_js xs)"
| "convertValues_js (VObj fs) = VObj (map (\<lambda>(k, v). (k, convertValues_js v)) fs)"
| "convertValues_js (VTemporal k s) = VTemporal k s"
| "convertValues_js v = v"

subsection \<open>\<^verbatim>\<open>convertValues\<close> of \<^verbatim>\<open>src/unnamed/part_002\<close>\<close>

text \<open>
  Here the branches for driver integers and temporal values come after the branch
  \<^verbatim>\<open>typeof value === 'object'\<close>, which returns. An \<^verbatim>\<open>Integer\<close> is an object whose own
  properties \<^verbatim>\<open>low\<close> and \<^verbatim>\<open>high\<close> are numbers, and a temporal value is an object too: both
  leave through the object branch, as the object they are.
\<close>

fun convertValues_part002 :: "jsval \<Rightarrow> jsval" where
  "convertValues_part002 VNull = VNull"
| "convertValues_part002 (VNode i ls ps) = VObj (map (\<lambda>(k, v). (k, convertValues_part002 v)) ps)"
| "convertValues_part002 (VArr xs) = VArr (map convertValues_part002 xs)"
| "convertValues_part002 (VObj fs) = VObj (map (\<lambda>(k, v). (k, convertValues_part002 v)) fs)"
| "convertValues_part002 (VInt i) = VInt i"
| "convertValues_part002 (VTemporal k s) = VTemporal k s"
| "convertValues_part002 v = v"

subsection \<open>\<^verbatim>\<open>extractRecords\<close>\<close>

text \<open>
  A \<^verbatim>\<open>Record\<close> of the driver is read through \<^verbatim>\<open>record.keys\<close> and \<^verbatim>\<open>record.get(key)\<close>
  only: it is the list of its columns, each key with its value. \<^verbatim>\<open>obj[key] = v\<close> on the
  fresh object is \<open>obj_set\<close>. The argument \<^verbatim>\<open>data\<close> is declared \<^verbatim>\<open>Record[]\<close>; the two guards
  in front also let through \<^verbatim>\<open>null\<close>/\<^verbatim>\<open>undefined\<close> and any value that is not an array.
\<close>

type_synonym neo_record = "(string \<times> jsval) list"

definition record_keys :: "neo_record \<Rightarrow> string list" where
  "record_keys r = map fst r"

definition record_get :: "neo_record \<Rightarrow> string \<Rightarrow> jsval" where
  "record_get r k = (case map_of r k of Some v \<Rightarrow> v | None \<Rightarrow> VUndefined)"

definition obj_set :: "(string \<times> jsval) list \<Rightarrow> string \<Rightarrow> jsval \<Rightarrow> (string \<times> jsval) list" where
  "obj_set obj k v = AList.update k v obj"

fun truthy :: "jsval \<Rightarrow> bool" where
  "truthy VNull = False"
| "truthy VUndefined = False"
| "truthy (VBool b) = b"
| "truthy (VNum n) = (n \<noteq> 0)"
| "truthy (VStr s) = (s \<noteq> [])"
| "truthy v = True"

datatype records_arg = NotArray jsval | Records "neo_record list"

definition extract_one :: "neo_record \<Rightarrow> jsval" where
  "extract_one r =
     VObj (foldl (\<lambda>obj key. obj_set obj key (convertValues (record_get r key))) [] (record_keys r))"

fun extractRecords :: "records_arg \<Rightarrow> jsval" where
  "extractRecords (NotArray d) = (if \<not> truthy d then VArr [] else d)"
| "extractRecords (Records rs) = VArr (map extract_one rs)"

section \<open>The array pruner\<close>

text \<open>
  \<^verbatim>\<open>removeEmptyArrays(data, arrayKey, checkKey)\<close> works on values without sharing: every
  array and object is held by one place only, as in the records that \<open>extractRecords\<close>
  builds. The assignment \<^verbatim>\<open>data[i][arrayKey] = []\<close> and the recursive calls change
  \<^verbatim>\<open>data\<close> in place and \<^verbatim>\<open>data\<close> is returned: here the function returns the new contents.

  \<^verbatim>\<open>data[i][arrayKey]\<close> throws a \<^verbatim>\<open>TypeError\<close> when \<^verbatim>\<open>data[i]\<close> is \<^verbatim>\<open>null\<close> or
  \<^verbatim>\<open>undefined\<close>; on every other value a property can be read. \<open>get_prop\<close> reads an own
  property: of an object; of an array or a string an index (a canonical decimal numeral)
  or \<^verbatim>\<open>length\<close>. An inherited property is never \<^verbatim>\<open>null\<close> and never an array with a first
  element, and the own properties of the driver's wrappers are neither \<^verbatim>\<open>null\<close> nor such an
  array (the strings of a Node's \<^verbatim>\<open>labels\<close> have no \<^verbatim>\<open>null\<close> property): for this function
  reading one of them has the effect of reading \<^verbatim>\<open>undefined\<close>.
\<close>

datatype js_error = TypeError

fun nullish :: "jsval \<Rightarrow> bool" where
  "nullish VNull = True"
| "nullish VUndefined = True"
| "nullish v = False"

fun isArray :: "jsval \<Rightarrow> bool" where
  "isArray (VArr xs) = True"
| "isArray v = False"

definition is_digit :: "char \<Rightarrow> bool" where
  "is_digit c \<longleftrightarrow> c \<in> set ''0123456789''"

definition array_index :: "string \<Rightarrow> nat option" where
  "array_index k =
     (if k \<noteq> [] \<and> list_all is_digit k \<and> (k = ''0'' \<or> hd k \<noteq> CHR ''0'')
      then Some (nat_of_dec k) else None)"

fun get_prop :: "jsval \<Rightarrow> string \<Rightarrow> jsval" where
  "get_prop (VObj fs) k = (case map_of fs k of Some v \<Rightarrow> v | None \<Rightarrow> VUndefined)"
| "get_prop (VArr xs) k =
     (case array_index k of
        Some i \<Rightarrow> if i < length xs then xs ! i else VUndefined
      | None \<Rightarrow> if k = ''length'' then VNum (int (length xs)) else VUndefined)"
| "get_prop (VStr s) k =
     (case array_index k of
        Some i \<Rightarrow> if i < length s then VStr [s ! i] else VUndefined
      | None \<Rightarrow> if k = ''length'' then VNum (int (length s)) else VUndefined)"
| "get_prop v k = VUndefined"

fun set_prop :: "jsval \<Rightarrow> string \<Rightarrow> jsval \<Rightarrow> jsval" where
  "set_prop (VObj fs) k v = VObj (AList.update k v fs)"
| "set_prop (VArr xs) k v =
     (case array_index k of
        Some i \<Rightarrow> if i < length xs then VArr (xs[i := v]) else VArr xs
      | None \<Rightarrow> VArr xs)"
| "set_prop e k v = e"

fun elem0 :: "jsval \<Rightarrow> jsval" where
  "elem0 (VArr (x # xs)) = x"
| "elem0 v = VUndefined"

text \<open>
  The two nested conditions of the loop body:
  \<^verbatim>\<open>data[i][arrayKey] && Array.isArray(data[i][arrayKey]) && data[i][arrayKey][0]\<close> and then
  \<^verbatim>\<open>data[i][arrayKey][0][checkKey] === null\<close>; \<open>empty_step\<close> is the assignment they guard.
\<close>

definition empties :: "string \<Rightarrow> string \<Rightarrow> jsval \<Rightarrow> bool" where
  "empties arrayKey checkKey e \<longleftrightarrow>
     truthy (get_prop e arrayKey) \<and> isArray (get_prop e arrayKey) \<and> truthy (elem0 (get_prop e arrayKey))
     \<and> get_prop (elem0 (get_prop e arrayKey)) checkKey = VNull"

definition empty_step :: "string \<Rightarrow> string \<Rightarrow> jsval \<Rightarrow> jsval" where
  "empty_step arrayKey checkKey e =
     (if empties arrayKey checkKey e then set_prop e arrayKey (VArr []) else e)"

text \<open>The assignment replaces an array by the empty array, so the value does not grow.\<close>

lemma size_update_le:
  "map_of fs k = Some (VArr xs) \<Longrightarrow>
   size_list (size_prod (\<lambda>_. 0) size) (AList.update k (VArr []) fs) \<le> size_list (size_prod (\<lambda>_. 0) size) fs"
  by (induction fs) (auto split: if_splits)

lemma size_list_update_le:
  "i < length xs \<Longrightarrow> xs ! i = VArr ys \<Longrightarrow> size_list size (xs[i := VArr []]) \<le> size_list size xs"
proof (induction xs arbitrary: i)
  case Nil then show ?case by simp
next
  case (Cons x xs)
  then show ?case by (cases i) auto
qed

lemma size_empty_step: "size (empty_step ak ck e) \<le> size e"
proof (cases "empties ak ck e")
  case False then show ?thesis by (simp add: empty_step_def)
next
  case True
  then obtain ys where a: "get_prop e ak = VArr ys"
    by (cases "get_prop e ak") (auto simp: empties_def)
  show ?thesis
  proof (cases e)
    case (VObj fs)
    with a have "map_of fs ak = Some (VArr ys)" by (auto split: option.splits)
    then show ?thesis using True VObj by (simp add: empty_step_def size_update_le)
  next
    case (VArr xs)
    with a obtain i where "array_index ak = Some i" "i < length xs" "xs ! i = VArr ys"
      by (auto split: option.splits if_splits)
    then show ?thesis using True VArr by (simp add: empty_step_def size_list_update_le)
  qed (simp_all add: empty_step_def)
qed

text \<open>
  The loop over \<^verbatim>\<open>i\<close> is the recursion over the list \<^verbatim>\<open>data\<close>. For each element: the
  property read that throws on \<^verbatim>\<open>null\<close> and \<^verbatim>\<open>undefined\<close>, the guarded assignment, then the
  \<^verbatim>\<open>for (let key in data[i])\<close> loop, which calls \<open>removeEmptyArrays\<close> on every own property
  that is an array: the properties of an object (\<open>for_in_props\<close>) or the elements of an
  array (\<open>for_in_items\<close>); a string has only one-character strings as indexed properties,
  and the other values have no enumerable own property that is an array.
\<close>

function removeEmptyArrays :: "jsval list \<Rightarrow> string \<Rightarrow> string \<Rightarrow> js_error + jsval list"
  and for_in :: "jsval \<Rightarrow> string \<Rightarrow> string \<Rightarrow> js_error + jsval"
  and for_in_props :: "(string \<times> jsval) list \<Rightarrow> string \<Rightarrow> string \<Rightarrow> js_error + (string \<times> jsval) list"
  and for_in_items :: "jsval list \<Rightarrow> string \<Rightarrow> string \<Rightarrow> js_error + jsval list"
where
  "removeEmptyArrays [] arrayKey checkKey = Inr []"
| "removeEmptyArrays (e # es) arrayKey checkKey =
     (if nullish e then Inl TypeError
      else case for_in (empty_step arrayKey checkKey e) arrayKey checkKey of
          Inl err \<Rightarrow> Inl err
        | Inr e' \<Rightarrow> (case removeEmptyArrays es arrayKey checkKey of
              Inl err \<Rightarrow> Inl err
            | Inr es' \<Rightarrow> Inr (e' # es')))"
| "for_in (VObj fs) arrayKey checkKey = map_sum id VObj (for_in_props fs arrayKey checkKey)"
| "for_in (VArr xs) arrayKey checkKey = map_sum id VArr (for_in_items xs arrayKey checkKey)"
| "for_in VNull arrayKey checkKey = Inr VNull"
| "for_in VUndefined arrayKey checkKey = Inr VUndefined"
| "for_in (VBool b) arrayKey checkKey = Inr (VBool b)"
| "for_in (VNum n) arrayKey checkKey = Inr (VNum n)"
| "for_in (VStr s) arrayKey checkKey = Inr (VStr s)"
| "for_in (VInt i) arrayKey checkKey = Inr (VInt i)"
| "for_in (VTemporal k s) arrayKey checkKey = Inr (VTemporal k s)"
| "for_in (VNode i ls ps) arrayKey checkKey = Inr (VNode i ls ps)"
| "for_in_props [] arrayKey checkKey = Inr []"
| "for_in_props ((key, v) # fs) arrayKey checkKey =
     (case (case v of VArr xs \<Rightarrow> map_sum id VArr (removeEmptyArrays xs arrayKey checkKey) | _ \<Rightarrow> Inr v) of
        Inl err \<Rightarrow> Inl err
      | Inr v' \<Rightarrow> (case for_in_props fs arrayKey checkKey of
            Inl err \<Rightarrow> Inl err
          | Inr fs' \<Rightarrow> Inr ((key, v') # fs')))"
| "for_in_items [] arrayKey checkKey = Inr []"
| "for_in_items (v # xs) arrayKey checkKey =
     (case (case v of VArr ys \<Rightarrow> map_sum id VArr (removeEmptyArrays ys arrayKey checkKey) | _ \<Rightarrow> Inr v) of
        Inl err \<Rightarrow> Inl err
      | Inr v' \<Rightarrow> (case for_in_items xs arrayKey checkKey of
            Inl err \<Rightarrow> Inl err
          | Inr xs' \<Rightarrow> Inr (v' # xs')))"
  by pat_completeness auto
termination
  apply (relation "measure (\<lambda>x. case x of
        Inl (Inl (d, _, _)) \<Rightarrow> 2 * size_list size d + 1
      | Inl (Inr (e, _, _)) \<Rightarrow> 2 * size e
      | Inr (Inl (fs, _, _)) \<Rightarrow> 2 * size_list (size_prod (\<lambda>_. 0) size) fs + 1
      | Inr (Inr (xs, _, _)) \<Rightarrow> 2 * size_list size xs + 1)")
  apply simp_all
  subgoal premises p for e es ak ck using size_empty_step [of ak ck e] by simp
  done

section \<open>The module's state and the driver\<close>

text \<open>
  The module keeps three variables, \<^verbatim>\<open>config\<close>, \<^verbatim>\<open>driver\<close> and \<^verbatim>\<open>multiDBSupport\<close>; they are
  the first three fields of \<open>world\<close>. A driver object is the number of the
  \<^verbatim>\<open>neo4j.driver(...)\<close> call that made it (\<open>drivers\<close> counts the calls). What the code does
  to the outside is written to \<open>trace\<close>, one event per call, in the order of the calls.

  What neo4j-driver and the server answer is not the module's to decide: it is a
  parameter \<open>env\<close>. \<^verbatim>\<open>neo4j.driver\<close> may throw (an unknown URL scheme);
  \<^verbatim>\<open>driver.verifyConnectivity()\<close> of the k-th driver resolves with the server's info or
  rejects; a managed transaction, the k-th \<^verbatim>\<open>txc.run\<close> of an explicit transaction,
  \<^verbatim>\<open>txc.commit()\<close> and \<^verbatim>\<open>txc.rollback()\<close> resolve or reject. \<^verbatim>\<open>driver.session\<close> and
  \<^verbatim>\<open>session.beginTransaction\<close> on the fresh session do not throw, and \<^verbatim>\<open>session.close()\<close>
  resolves: the driver swallows the errors of releasing a connection.

  A rejected promise carries a reason: an error of the driver, an error thrown by the
  module's own code, or the string the module rejects with.
\<close>

datatype reason = Neo4jError string | Thrown js_error | Message string

record server_info =
  address :: string
  version :: string

record config =
  url :: string
  auth :: "string \<times> string"
  database :: string
  options :: "(string \<times> jsval) list"

datatype access_mode = READ | WRITE

datatype event =
    NewDriver nat
  | VerifyConnectivity nat
  | ConsoleLog string
  | ConsoleWarn string
  | ConsoleError string
  | SetTimeout nat
  | OnExit
  | OpenSession nat "string option" access_mode
  | ReadTransaction string jsval
  | WriteTransaction string jsval
  | BeginTransaction
  | Run string jsval
  | Commit
  | Rollback
  | CloseSession

record world =
  config_var :: "config option"
  driver_var :: "nat option"
  multiDBSupport :: bool
  drivers :: nat
  trace :: "event list"

record statement =
  statement :: string
  parameters :: jsval

record env =
  new_driver :: "config \<Rightarrow> reason option"
  verifyConnectivity :: "nat \<Rightarrow> reason + server_info"
  session_read :: "string \<Rightarrow> jsval \<Rightarrow> reason + neo_record list"
  session_write :: "string \<Rightarrow> jsval \<Rightarrow> reason + neo_record list"
  txc_run :: "nat \<Rightarrow> string \<Rightarrow> jsval \<Rightarrow> reason + neo_record list"
  txc_commit :: "reason option"
  txc_rollback :: "reason option"

definition emit :: "event list \<Rightarrow> world \<Rightarrow> world" where
  "emit evs w = w\<lparr>trace := trace w @ evs\<rparr>"

subsection \<open>\<^verbatim>\<open>connect\<close>\<close>

text \<open>
  \<^verbatim>\<open>connect(numberOfTrials)\<close>: a new driver is made and assigned to \<^verbatim>\<open>driver\<close>, then
  \<^verbatim>\<open>await driver.verifyConnectivity()\<close>. When that rejects and \<^verbatim>\<open>numberOfTrials > 0\<close>, a
  warning is logged and \<^verbatim>\<open>connect(numberOfTrials - 1)\<close> runs from a 5000 ms timer, its
  outcome being the outcome of this call; otherwise the error is logged and the call
  rejects with the reason. Reading \<^verbatim>\<open>config.url\<close> of an unset \<^verbatim>\<open>config\<close> throws.
\<close>

fun connect :: "env \<Rightarrow> nat \<Rightarrow> world \<Rightarrow> (reason + server_info) \<times> world" where
  "connect env numberOfTrials w =
     (case config_var w of
        None \<Rightarrow> (Inl (Thrown TypeError), w)
      | Some cfg \<Rightarrow>
          (case new_driver env cfg of
             Some err \<Rightarrow> (Inl err, w)
           | None \<Rightarrow>
               (let d = drivers w;
                    w1 = emit [NewDriver d, VerifyConnectivity d]
                           (w\<lparr>driver_var := Some d, drivers := Suc d\<rparr>)
                in case verifyConnectivity env d of
                     Inr serverInfo \<Rightarrow> (Inr serverInfo, w1)
                   | Inl reason \<Rightarrow>
                       if numberOfTrials > 0
                       then connect env (numberOfTrials - 1)
                              (emit [ConsoleWarn ''Neo4j driver instantiation failed. Retry in 5 seconds...'',
                                     SetTimeout 5000] w1)
                       else (Inl reason, emit [ConsoleError ''Neo4j driver instantiation failed!''] w1))))"

declare connect.simps [simp del]

subsection \<open>The version pattern\<close>

text \<open>
  \<^verbatim>\<open>/^Neo4j\/(\d+).\d+.\d+/.exec(serverInfo.version)\<close>, as the backtracking matcher runs it:
  the text \<^verbatim>\<open>Neo4j/\<close>, then the group \<^verbatim>\<open>(\d+)\<close> tried from its longest run of digits down
  to one digit; each unescaped \<^verbatim>\<open>.\<close> is any character but a line terminator; the last
  \<^verbatim>\<open>\d+\<close> needs one digit. \<open>version_exec\<close> returns the text of group 1 of the first match,
  \<open>None\<close> for \<^verbatim>\<open>null\<close>. \<open>matches_pattern\<close> says the same without an order of search.
\<close>

definition line_terminator :: "char \<Rightarrow> bool" where
  "line_terminator c \<longleftrightarrow> c = CHR 0x0A \<or> c = CHR 0x0D"

fun dot_digits :: "string \<Rightarrow> bool" where
  "dot_digits (c # d # s) = (\<not> line_terminator c \<and> is_digit d)"
| "dot_digits s = False"

definition digit_runs :: "string \<Rightarrow> nat list" where
  "digit_runs s = rev [1..<Suc (length (takeWhile is_digit s))]"

fun dot_digits_dot_digits :: "string \<Rightarrow> bool" where
  "dot_digits_dot_digits (c # s) =
     (\<not> line_terminator c \<and> list_ex (\<lambda>n. dot_digits (drop n s)) (digit_runs s))"
| "dot_digits_dot_digits [] = False"

definition version_exec :: "string \<Rightarrow> string option" where
  "version_exec v =
     (if take 6 v = ''Neo4j/''
      then map_option (\<lambda>n. take n (drop 6 v))
             (find (\<lambda>n. dot_digits_dot_digits (drop n (drop 6 v))) (digit_runs (drop 6 v)))
      else None)"

definition matches_pattern :: "string \<Rightarrow> bool" where
  "matches_pattern v \<longleftrightarrow>
     (\<exists>major c1 minor c2 patch rest.
        v = ''Neo4j/'' @ major @ [c1] @ minor @ [c2] @ patch @ rest
        \<and> major \<noteq> [] \<and> list_all is_digit major \<and> \<not> line_terminator c1
        \<and> minor \<noteq> [] \<and> list_all is_digit minor \<and> \<not> line_terminator c2
        \<and> patch \<noteq> [] \<and> list_all is_digit patch)"

subsection \<open>\<^verbatim>\<open>init\<close>\<close>

text \<open>
  \<^verbatim>\<open>init(url, user, password, database = 'neo4j', options = {})\<close> sets \<^verbatim>\<open>config\<close>, then
  inside \<^verbatim>\<open>try\<close>: \<^verbatim>\<open>await connect(5)\<close>, the log line, the match of the version,
  \<^verbatim>\<open>+matches[1] > 3\<close> (reading \<^verbatim>\<open>matches[1]\<close> of \<^verbatim>\<open>null\<close> throws a \<^verbatim>\<open>TypeError\<close>), the exit
  hook, \<^verbatim>\<open>return serverInfo\<close>. The \<^verbatim>\<open>catch\<close> turns whatever was thrown or rejected into the
  rejection of \<^verbatim>\<open>init\<close>.
\<close>

definition assign :: "(string \<times> jsval) list \<Rightarrow> (string \<times> jsval) list \<Rightarrow> (string \<times> jsval) list" where
  "assign target source = foldl (\<lambda>obj (k, v). obj_set obj k v) target source"

definition make_config ::
  "string \<Rightarrow> string \<Rightarrow> string \<Rightarrow> string option \<Rightarrow> (string \<times> jsval) list option \<Rightarrow> config" where
  "make_config url' user password database' options' =
     \<lparr>url = url', auth = (user, password),
      database = (case database' of None \<Rightarrow> ''neo4j'' | Some d \<Rightarrow> d),
      options = assign [(''disableLosslessIntegers'', VBool True)]
                  (case options' of None \<Rightarrow> [] | Some os \<Rightarrow> os)\<rparr>"

definition init ::
  "env \<Rightarrow> string \<Rightarrow> string \<Rightarrow> string \<Rightarrow> string option \<Rightarrow> (string \<times> jsval) list option
     \<Rightarrow> world \<Rightarrow> (reason + server_info) \<times> world" where
  "init env url' user password database' options' w =
     (case connect env 5 (w\<lparr>config_var := Some (make_config url' user password database' options')\<rparr>) of
        (Inl reason, w1) \<Rightarrow> (Inl reason, w1)
      | (Inr serverInfo, w1) \<Rightarrow>
          (let w2 = emit [ConsoleLog ''Neo4j Server:''] w1
           in case version_exec (version serverInfo) of
                None \<Rightarrow> (Inl (Thrown TypeError), w2)
              | Some major \<Rightarrow>
                  (Inr serverInfo,
                   emit [OnExit]
                     (if nat_of_dec major > 3 then w2\<lparr>multiDBSupport := True\<rparr> else w2))))"

section \<open>The transaction helpers\<close>

text \<open>
  An \<^verbatim>\<open>async\<close> function is a function from the world to the outcome of its promise
  (\<open>Inr\<close> resolved, \<open>Inl\<close> rejected) and the world after it. \<open>try_catch_finally\<close> is the
  statement \<^verbatim>\<open>try { body } catch (e) { handler } finally { finalizer }\<close>: the handler runs
  when the body rejects, the finalizer runs in every case and after both, and a finalizer
  that rejects replaces the outcome.

  The session is opened with \<^verbatim>\<open>database: multiDBSupport ? config.database : null\<close>; reading
  \<^verbatim>\<open>config.database\<close> of an unset \<^verbatim>\<open>config\<close> throws before any session exists (the module
  itself sets \<^verbatim>\<open>multiDBSupport\<close> only after \<^verbatim>\<open>config\<close>).
\<close>

type_synonym 'a async = "world \<Rightarrow> (reason + 'a) \<times> world"

definition try_catch_finally ::
  "'a async \<Rightarrow> (reason \<Rightarrow> 'a async) \<Rightarrow> unit async \<Rightarrow> 'a async" where
  "try_catch_finally body handler finalizer w =
     (let (r1, w1) = body w;
          (r2, w2) = (case r1 of Inr v \<Rightarrow> (Inr v, w1) | Inl e \<Rightarrow> handler e w1);
          (r3, w3) = finalizer w2
      in (case r3 of Inl e \<Rightarrow> (Inl e, w3) | Inr u \<Rightarrow> (r2, w3)))"

definition session_close :: "unit async" where
  "session_close w = (Inr (), emit [CloseSession] w)"

definition session_database :: "world \<Rightarrow> reason + string option" where
  "session_database w =
     (if multiDBSupport w
      then (case config_var w of None \<Rightarrow> Inl (Thrown TypeError) | Some cfg \<Rightarrow> Inr (Some (database cfg)))
      else Inr None)"

definition params_or_empty :: "jsval option \<Rightarrow> jsval" where
  "params_or_empty params = (case params of None \<Rightarrow> VObj [] | Some p \<Rightarrow> p)"

definition readTransaction :: "env \<Rightarrow> string \<Rightarrow> jsval option \<Rightarrow> jsval async" where
  "readTransaction env query params' w =
     (let params = params_or_empty params'
      in case driver_var w of
           None \<Rightarrow> (Inl (Message ''Neo4j driver not initialized!''), w)
         | Some d \<Rightarrow>
             (case session_database w of
                Inl err \<Rightarrow> (Inl err, w)
              | Inr db \<Rightarrow>
                  try_catch_finally
                    (\<lambda>w. case session_read env query params of
                            Inl e \<Rightarrow> (Inl e, emit [ReadTransaction query params] w)
                          | Inr records \<Rightarrow>
                              (Inr (extractRecords (Records records)),
                               emit [ReadTransaction query params] w))
                    (\<lambda>e w. (Inl e, w))
                    session_close
                    (emit [OpenSession d db READ] w)))"

definition writeTransaction :: "env \<Rightarrow> string \<Rightarrow> jsval option \<Rightarrow> jsval async" where
  "writeTransaction env query params' w =
     (let params = params_or_empty params'
      in case driver_var w of
           None \<Rightarrow> (Inl (Message ''Neo4j driver not initialized!''), w)
         | Some d \<Rightarrow>
             (case session_database w of
                Inl err \<Rightarrow> (Inl err, w)
              | Inr db \<Rightarrow>
                  try_catch_finally
                    (\<lambda>w. case session_write env query params of
                            Inl e \<Rightarrow> (Inl e, emit [WriteTransaction query params] w)
                          | Inr records \<Rightarrow>
                              (Inr (extractRecords (Records records)),
                               emit [WriteTransaction query params] w))
                    (\<lambda>e w. (Inl e, w))
                    session_close
                    (emit [OpenSession d db WRITE] w)))"

text \<open>
  The loop \<^verbatim>\<open>for (const s of statements)\<close> of \<^verbatim>\<open>multipleStatements\<close>: each
  \<^verbatim>\<open>await txc.run(s.statement, s.parameters)\<close> in turn, its records pushed to \<^verbatim>\<open>results\<close>;
  the first rejection leaves the loop.
\<close>

fun run_statements :: "env \<Rightarrow> nat \<Rightarrow> statement list \<Rightarrow> jsval list \<Rightarrow> (jsval list) async" where
  "run_statements env k [] results w = (Inr results, w)"
| "run_statements env k (s # ss) results w =
     (case txc_run env k (statement s) (parameters s) of
        Inl e \<Rightarrow> (Inl e, emit [Run (statement s) (parameters s)] w)
      | Inr records \<Rightarrow>
          run_statements env (Suc k) ss (results @ [extractRecords (Records records)])
            (emit [Run (statement s) (parameters s)] w))"

definition txc_commit_call :: "env \<Rightarrow> unit async" where
  "txc_commit_call env w =
     (case txc_commit env of Some e \<Rightarrow> (Inl e, emit [Commit] w) | None \<Rightarrow> (Inr (), emit [Commit] w))"

definition txc_rollback_call :: "env \<Rightarrow> unit async" where
  "txc_rollback_call env w =
     (case txc_rollback env of Some e \<Rightarrow> (Inl e, emit [Rollback] w) | None \<Rightarrow> (Inr (), emit [Rollback] w))"

definition multipleStatements :: "env \<Rightarrow> statement list \<Rightarrow> jsval async" where
  "multipleStatements env statements w =
     (case driver_var w of
        None \<Rightarrow> (Inl (Message ''Neo4j driver not initialized!''), w)
      | Some d \<Rightarrow>
          (case session_database w of
             Inl err \<Rightarrow> (Inl err, w)
           | Inr db \<Rightarrow>
               try_catch_finally
                 (\<lambda>w. case run_statements env 0 statements [] w of
                         (Inl e, w1) \<Rightarrow> (Inl e, w1)
                       | (Inr results, w1) \<Rightarrow>
                           (case txc_commit_call env w1 of
                              (Inl e, w2) \<Rightarrow> (Inl e, w2)
                            | (Inr u, w2) \<Rightarrow> (Inr (VArr results), w2)))
                 (\<lambda>e w. case txc_rollback_call env w of
                           (Inl e2, w1) \<Rightarrow> (Inl e2, w1)
                         | (Inr u, w1) \<Rightarrow> (Inl e, w1))
                 session_close
                 (emit [OpenSession d db WRITE, BeginTransaction] w)))"

section \<open>The normalizer and the pruner on a store\<close>

text \<open>
  \<^verbatim>\<open>value[key] = convertValues(value[key])\<close> and \<^verbatim>\<open>data[i][arrayKey] = []\<close> assign to
  properties of objects the caller holds. To say what a call does to its argument, the
  two functions are translated once more, over a store: a value is a primitive or a
  reference, and the store maps each reference to an array, a plain object or a wrapper
  of the driver (a Node holds the reference of its \<^verbatim>\<open>properties\<close> object). A fresh object
  takes the next free reference.

  The recursion of the source follows references, and on a cyclic structure it does not
  end; the translations take fuel, one unit per nested call, and \<open>None\<close> says that it ran
  out. The values meant are the acyclic ones: a call that ends never assigns to the array
  or object it is iterating over, so \<^verbatim>\<open>data[i]\<close> and \<^verbatim>\<open>Object.keys(value)\<close> are read once.
\<close>

type_synonym ref = nat

datatype hval = HNull | HUndefined | HBool bool | HNum int | HStr string | HRef ref

datatype hobj =
    HArr "hval list"
  | HObj "(string \<times> hval) list"
  | HInt int
  | HTemporal temporal_kind string
  | HNode int "string list" ref

type_synonym heap = "hobj list"

definition heap_get :: "heap \<Rightarrow> ref \<Rightarrow> hobj option" where
  "heap_get h a = (if a < length h then Some (h ! a) else None)"

definition alloc :: "hobj \<Rightarrow> heap \<Rightarrow> ref \<times> heap" where
  "alloc c h = (length h, h @ [c])"

text \<open>
  \<open>convertValues\<close> of \<^verbatim>\<open>src/src/index.ts\<close>: a driver integer and a temporal value give a
  primitive; \<^verbatim>\<open>value.map(...)\<close> builds a new array from the converted elements
  (\<open>convert_items\<close>); the loop \<^verbatim>\<open>for (const key of Object.keys(value))\<close> assigns the converted
  value to each property of the object itself (\<open>convert_props\<close>) and the object is returned.
\<close>

function (sequential) convertValues_heap :: "nat \<Rightarrow> hval \<Rightarrow> heap \<Rightarrow> (hval \<times> heap) option"
  and convert_items :: "nat \<Rightarrow> hval list \<Rightarrow> heap \<Rightarrow> (hval list \<times> heap) option"
  and convert_props :: "nat \<Rightarrow> ref \<Rightarrow> string list \<Rightarrow> heap \<Rightarrow> heap option"
where
  "convertValues_heap 0 v h = None"
| "convertValues_heap (Suc n) v h =
     (case v of
        HRef a \<Rightarrow>
     (case heap_get h a of
        None \<Rightarrow> None
      | Some (HInt i) \<Rightarrow> Some (if inSafeRange i then HNum i else HStr (Integer_toString i), h)
      | Some (HTemporal k s) \<Rightarrow> Some (HStr s, h)
      | Some (HNode i ls p) \<Rightarrow>
          (case heap_get h p of
             Some (HObj fs) \<Rightarrow>
               (case convert_props n p (map fst fs) h of None \<Rightarrow> None | Some h' \<Rightarrow> Some (HRef p, h'))
           | _ \<Rightarrow> None)
      | Some (HArr xs) \<Rightarrow>
          (case convert_items n xs h of
             None \<Rightarrow> None
           | Some (ys, h') \<Rightarrow> Some (HRef (fst (alloc (HArr ys) h')), snd (alloc (HArr ys) h')))
      | Some (HObj fs) \<Rightarrow>
          (case convert_props n a (map fst fs) h of None \<Rightarrow> None | Some h' \<Rightarrow> Some (HRef a, h')))
      | _ \<Rightarrow> Some (v, h))"
| "convert_items n [] h = Some ([], h)"
| "convert_items n (x # xs) h =
     (case convertValues_heap n x h of
        None \<Rightarrow> None
      | Some (y, h1) \<Rightarrow>
          (case convert_items n xs h1 of None \<Rightarrow> None | Some (ys, h2) \<Rightarrow> Some (y # ys, h2)))"
| "convert_props n a [] h = Some h"
| "convert_props n a (key # keys) h =
     (case heap_get h a of
        Some (HObj fs) \<Rightarrow>
          (case convertValues_heap n (case map_of fs key of Some v \<Rightarrow> v | None \<Rightarrow> HUndefined) h of
             None \<Rightarrow> None
           | Some (v', h1) \<Rightarrow>
               (case heap_get h1 a of
                  Some (HObj fs1) \<Rightarrow> convert_props n a keys (h1[a := HObj (AList.update key v' fs1)])
                | _ \<Rightarrow> None))
      | _ \<Rightarrow> None)"
  by pat_completeness auto
termination
  by (relation "measures
        [\<lambda>x. case x of Inl (n, v, h) \<Rightarrow> 2 * n | Inr (Inl (n, xs, h)) \<Rightarrow> 2 * n + 1
                          | Inr (Inr (n, a, ks, h)) \<Rightarrow> 2 * n + 1,
         \<lambda>x. case x of Inl (n, v, h) \<Rightarrow> 0 | Inr (Inl (n, xs, h)) \<Rightarrow> length xs
                          | Inr (Inr (n, a, ks, h)) \<Rightarrow> length ks]") auto

text \<open>
  \<open>removeEmptyArrays\<close>: the same reads, tests and assignment as in \<open>get_prop\<close>, \<open>empties\<close> and
  \<open>empty_step\<close> above, now through the store; the empty array assigned is a fresh one. The
  call returns \<^verbatim>\<open>data\<close> itself, so the result is the store it leaves (when it throws, the
  store is not followed further).
\<close>

fun hnullish :: "hval \<Rightarrow> bool" where
  "hnullish HNull = True"
| "hnullish HUndefined = True"
| "hnullish v = False"

fun htruthy :: "hval \<Rightarrow> bool" where
  "htruthy HNull = False"
| "htruthy HUndefined = False"
| "htruthy (HBool b) = b"
| "htruthy (HNum n) = (n \<noteq> 0)"
| "htruthy (HStr s) = (s \<noteq> [])"
| "htruthy (HRef a) = True"

definition is_array_ref :: "heap \<Rightarrow> hval \<Rightarrow> bool" where
  "is_array_ref h v = (case v of HRef a \<Rightarrow> (case heap_get h a of Some (HArr xs) \<Rightarrow> True | _ \<Rightarrow> False) | _ \<Rightarrow> False)"

definition hget_prop :: "heap \<Rightarrow> hval \<Rightarrow> string \<Rightarrow> hval" where
  "hget_prop h v k =
     (case v of
        HRef a \<Rightarrow>
          (case heap_get h a of
             Some (HObj fs) \<Rightarrow> (case map_of fs k of Some x \<Rightarrow> x | None \<Rightarrow> HUndefined)
           | Some (HArr xs) \<Rightarrow>
               (case array_index k of
                  Some i \<Rightarrow> if i < length xs then xs ! i else HUndefined
                | None \<Rightarrow> if k = ''length'' then HNum (int (length xs)) else HUndefined)
           | _ \<Rightarrow> HUndefined)
      | HStr s \<Rightarrow>
          (case array_index k of
             Some i \<Rightarrow> if i < length s then HStr [s ! i] else HUndefined
           | None \<Rightarrow> if k = ''length'' then HNum (int (length s)) else HUndefined)
      | _ \<Rightarrow> HUndefined)"

definition hset_prop :: "heap \<Rightarrow> hval \<Rightarrow> string \<Rightarrow> hval \<Rightarrow> heap" where
  "hset_prop h v k x =
     (case v of
        HRef a \<Rightarrow>
          (case heap_get h a of
             Some (HObj fs) \<Rightarrow> h[a := HObj (AList.update k x fs)]
           | Some (HArr xs) \<Rightarrow>
               (case array_index k of
                  Some i \<Rightarrow> if i < length xs then h[a := HArr (xs[i := x])] else h
                | None \<Rightarrow> h)
           | _ \<Rightarrow> h)
      | _ \<Rightarrow> h)"

definition helem0 :: "heap \<Rightarrow> hval \<Rightarrow> hval" where
  "helem0 h v = (case v of HRef a \<Rightarrow> (case heap_get h a of Some (HArr (x # xs)) \<Rightarrow> x | _ \<Rightarrow> HUndefined)
                 | _ \<Rightarrow> HUndefined)"

definition hempties :: "heap \<Rightarrow> string \<Rightarrow> string \<Rightarrow> hval \<Rightarrow> bool" where
  "hempties h arrayKey checkKey e \<longleftrightarrow>
     htruthy (hget_prop h e arrayKey) \<and> is_array_ref h (hget_prop h e arrayKey)
     \<and> htruthy (helem0 h (hget_prop h e arrayKey))
     \<and> hget_prop h (helem0 h (hget_prop h e arrayKey)) checkKey = HNull"

definition hempty_step :: "string \<Rightarrow> string \<Rightarrow> hval \<Rightarrow> heap \<Rightarrow> heap" where
  "hempty_step arrayKey checkKey e h =
     (if hempties h arrayKey checkKey e
      then hset_prop (snd (alloc (HArr []) h)) e arrayKey (HRef (fst (alloc (HArr []) h)))
      else h)"

definition own_keys :: "heap \<Rightarrow> hval \<Rightarrow> string list" where
  "own_keys h v =
     (case v of
        HRef a \<Rightarrow>
          (case heap_get h a of
             Some (HObj fs) \<Rightarrow> map fst fs
           | Some (HArr xs) \<Rightarrow> map dec_nat [0..<length xs]
           | _ \<Rightarrow> [])
      | _ \<Rightarrow> [])"

function (sequential) removeEmptyArrays_heap :: "nat \<Rightarrow> hval \<Rightarrow> string \<Rightarrow> string \<Rightarrow> heap \<Rightarrow> (js_error + heap) option"
  and loop_heap :: "nat \<Rightarrow> hval \<Rightarrow> nat list \<Rightarrow> string \<Rightarrow> string \<Rightarrow> heap \<Rightarrow> (js_error + heap) option"
  and for_in_heap :: "nat \<Rightarrow> hval \<Rightarrow> string list \<Rightarrow> string \<Rightarrow> string \<Rightarrow> heap \<Rightarrow> (js_error + heap) option"
where
  "removeEmptyArrays_heap 0 data arrayKey checkKey h = None"
| "removeEmptyArrays_heap (Suc n) data arrayKey checkKey h =
     (case hget_prop h data ''length'' of
        HNum l \<Rightarrow> loop_heap n data [0..<nat l] arrayKey checkKey h
      | _ \<Rightarrow> Some (Inr h))"
| "loop_heap n data [] arrayKey checkKey h = Some (Inr h)"
| "loop_heap n data (i # is) arrayKey checkKey h =
     (let e = hget_prop h data (dec_nat i) in
      if hnullish e then Some (Inl TypeError)
      else let h1 = hempty_step arrayKey checkKey e h in
        (case for_in_heap n e (own_keys h1 e) arrayKey checkKey h1 of
           None \<Rightarrow> None
         | Some (Inl err) \<Rightarrow> Some (Inl err)
         | Some (Inr h2) \<Rightarrow> loop_heap n data is arrayKey checkKey h2))"
| "for_in_heap n e [] arrayKey checkKey h = Some (Inr h)"
| "for_in_heap n e (key # keys) arrayKey checkKey h =
     (if is_array_ref h (hget_prop h e key)
      then (case removeEmptyArrays_heap n (hget_prop h e key) arrayKey checkKey h of
              None \<Rightarrow> None
            | Some (Inl err) \<Rightarrow> Some (Inl err)
            | Some (Inr h1) \<Rightarrow> for_in_heap n e keys arrayKey checkKey h1)
      else for_in_heap n e keys arrayKey checkKey h)"
  by pat_completeness auto
termination
  by (relation "measures
        [\<lambda>x. case x of Inl (n, d, ak, ck, h) \<Rightarrow> 3 * n
                          | Inr (Inl (n, d, is, ak, ck, h)) \<Rightarrow> 3 * n + 2
                          | Inr (Inr (n, e, ks, ak, ck, h)) \<Rightarrow> 3 * n + 1,
         \<lambda>x. case x of Inl (n, d, ak, ck, h) \<Rightarrow> 0
                          | Inr (Inl (n, d, is, ak, ck, h)) \<Rightarrow> length is
                          | Inr (Inr (n, e, ks, ak, ck, h)) \<Rightarrow> length ks]") auto

section \<open>Notions used in the statements\<close>

text \<open>
  A plain value holds no wrapper of the driver: it is \<^verbatim>\<open>null\<close>, \<^verbatim>\<open>undefined\<close>, a boolean, a
  number, a string, an array of plain values or an object whose property values are plain.
\<close>

fun plain :: "jsval \<Rightarrow> bool" where
  "plain (VArr xs) = list_all plain xs"
| "plain (VObj fs) = list_all (\<lambda>(k, v). plain v) fs"
| "plain (VInt i) = False"
| "plain (VTemporal k s) = False"
| "plain (VNode i ls ps) = False"
| "plain v = True"

text \<open>Values that hold no temporal or spatial object, and values that hold no driver integer.\<close>

fun no_temporal :: "jsval \<Rightarrow> bool" where
  "no_temporal (VArr xs) = list_all no_temporal xs"
| "no_temporal (VObj fs) = list_all (\<lambda>(k, v). no_temporal v) fs"
| "no_temporal (VNode i ls ps) = list_all (\<lambda>(k, v). no_temporal v) ps"
| "no_temporal (VTemporal k s) = False"
| "no_temporal v = True"

fun no_integer :: "jsval \<Rightarrow> bool" where
  "no_integer (VArr xs) = list_all no_integer xs"
| "no_integer (VObj fs) = list_all (\<lambda>(k, v). no_integer v) fs"
| "no_integer (VNode i ls ps) = list_all (\<lambda>(k, v). no_integer v) ps"
| "no_integer (VInt i) = False"
| "no_integer v = True"

text \<open>
  \<open>visited v v'\<close>: the value \<open>v'\<close> is what the \<^verbatim>\<open>for ... in\<close> loop leaves of the property
  value \<open>v\<close>: the result of the recursive call when \<open>v\<close> is an array, and \<open>v\<close> itself otherwise.
\<close>

definition visited :: "string \<Rightarrow> string \<Rightarrow> jsval \<Rightarrow> jsval \<Rightarrow> bool" where
  "visited ak ck v v' \<longleftrightarrow>
     (case v of VArr xs \<Rightarrow> (\<exists>xs'. v' = VArr xs' \<and> removeEmptyArrays xs ak ck = Inr xs') | _ \<Rightarrow> v' = v)"

definition attempt_events :: "nat \<Rightarrow> event list" where
  "attempt_events d = [NewDriver d, VerifyConnectivity d]"

definition retry_events :: "nat \<Rightarrow> event list" where
  "retry_events d =
     [NewDriver d, VerifyConnectivity d,
      ConsoleWarn ''Neo4j driver instantiation failed. Retry in 5 seconds...'', SetTimeout 5000]"

definition run_event :: "statement \<Rightarrow> event" where
  "run_event s = Run (statement s) (parameters s)"

fun session_event :: "event \<Rightarrow> bool" where
  "session_event (OpenSession d db m) = True"
| "session_event CloseSession = True"
| "session_event e = False"

definition events_since :: "world \<Rightarrow> world \<Rightarrow> event list" where
  "events_since w w' = drop (length (trace w)) (trace w')"

definition all_succeed :: "env \<Rightarrow> statement list \<Rightarrow> bool" where
  "all_succeed env statements \<longleftrightarrow>
     (\<forall>k<length statements. \<exists>r.
        txc_run env k (statement (statements ! k)) (parameters (statements ! k)) = Inr r)"

definition results_of :: "env \<Rightarrow> statement list \<Rightarrow> neo_record list list" where
  "results_of env statements =
     map (\<lambda>k. case txc_run env k (statement (statements ! k)) (parameters (statements ! k)) of
                 Inr r \<Rightarrow> r | Inl e \<Rightarrow> [])
       [0..<length statements]"

text \<open>
  \<open>heap_kept h h'\<close>: every object of \<open>h\<close> is in \<open>h'\<close> an object with the same properties in
  the same order (their values may differ), and every array and every wrapper of \<open>h\<close> is
  unchanged in \<open>h'\<close>; \<open>h'\<close> may hold more.
\<close>

definition kept :: "hobj \<Rightarrow> hobj \<Rightarrow> bool" where
  "kept c c' \<longleftrightarrow>
     (case c of HObj fs \<Rightarrow> (\<exists>fs'. c' = HObj fs' \<and> map fst fs' = map fst fs) | _ \<Rightarrow> c' = c)"

definition heap_kept :: "heap \<Rightarrow> heap \<Rightarrow> bool" where
  "heap_kept h h' \<longleftrightarrow> length h \<le> length h' \<and> (\<forall>a<length h. kept (h ! a) (h' ! a))"

text \<open>
  \<open>heap_kept_pruner arrayKey h h'\<close>: every object of \<open>h\<close> keeps its properties and the value
  of each property but \<^verbatim>\<open>arrayKey\<close>; every array keeps its length, and its elements unless
  \<^verbatim>\<open>arrayKey\<close> is an array index; every wrapper is unchanged.
\<close>

definition kept_pruner :: "string \<Rightarrow> hobj \<Rightarrow> hobj \<Rightarrow> bool" where
  "kept_pruner ak c c' \<longleftrightarrow>
     (case c of
        HObj fs \<Rightarrow> (\<exists>fs'. c' = HObj fs' \<and> map fst fs' = map fst fs
                          \<and> (\<forall>k. k \<noteq> ak \<longrightarrow> map_of fs' k = map_of fs k))
      | HArr xs \<Rightarrow> (\<exists>xs'. c' = HArr xs' \<and> length xs' = length xs
                          \<and> (array_index ak = None \<longrightarrow> xs' = xs))
      | _ \<Rightarrow> c' = c)"

definition heap_kept_pruner :: "string \<Rightarrow> heap \<Rightarrow> heap \<Rightarrow> bool" where
  "heap_kept_pruner ak h h' \<longleftrightarrow>
     length h \<le> length h' \<and> (\<forall>a<length h. kept_pruner ak (h ! a) (h' ! a))"

text \<open>
  \<open>read_value\<close> reads the value behind a reference out of the store, as a value without
  sharing (with fuel, for the depth).
\<close>

fun read_value :: "nat \<Rightarrow> heap \<Rightarrow> hval \<Rightarrow> jsval option" where
  "read_value 0 h v = None"
| "read_value (Suc n) h v =
     (case v of
        HNull \<Rightarrow> Some VNull
      | HUndefined \<Rightarrow> Some VUndefined
      | HBool b \<Rightarrow> Some (VBool b)
      | HNum i \<Rightarrow> Some (VNum i)
      | HStr s \<Rightarrow> Some (VStr s)
      | HRef a \<Rightarrow>
          (case heap_get h a of
             None \<Rightarrow> None
           | Some (HArr xs) \<Rightarrow> map_option VArr (those (map (read_value n h) xs))
           | Some (HObj fs) \<Rightarrow>
               map_option VObj (those (map (\<lambda>(k, x). map_option (Pair k) (read_value n h x)) fs))
           | Some (HInt i) \<Rightarrow> Some (VInt i)
           | Some (HTemporal k s) \<Rightarrow> Some (VTemporal k s)
           | Some (HNode i ls p) \<Rightarrow>
               (case heap_get h p of
                  Some (HObj fs) \<Rightarrow>
                    map_option (VNode i ls)
                      (those (map (\<lambda>(k, x). map_option (Pair k) (read_value n h x)) fs))
                | _ \<Rightarrow> None)))"

section \<open>Properties of the normalizer\<close>

subsection \<open>Decimal strings\<close>

lemma digit_char_eval:
  "digit_char 0 = CHR ''0''" "digit_char (Suc 0) = CHR ''1''" "digit_char 2 = CHR ''2''"
  "digit_char 3 = CHR ''3''" "digit_char 4 = CHR ''4''" "digit_char 5 = CHR ''5''"
  "digit_char 6 = CHR ''6''" "digit_char 7 = CHR ''7''" "digit_char 8 = CHR ''8''"
  "digit_char 9 = CHR ''9''"
  by code_simp+

lemma digit_val_digit_char: "d < 10 \<Longrightarrow> digit_val (digit_char d) = d"
  by (simp add: digit_val_def digit_char_def)

lemma nat_of_dec_snoc: "nat_of_dec (s @ [c]) = 10 * nat_of_dec s + digit_val c"
  by (simp add: nat_of_dec_def)

lemma nat_of_dec_dec_nat: "nat_of_dec (dec_nat n) = n"
proof (induction n rule: dec_nat.induct)
  case (1 n)
  show ?case
  proof (cases "n < 10")
    case True
    then have "dec_nat n = [digit_char n]" by (subst dec_nat.simps) simp
    then show ?thesis using True
      by (simp add: nat_of_dec_def digit_val_digit_char)
  next
    case False
    have "nat_of_dec (dec_nat n) = 10 * nat_of_dec (dec_nat (n div 10)) + digit_val (digit_char (n mod 10))"
      using False by (subst dec_nat.simps) (simp add: nat_of_dec_snoc)
    also have "\<dots> = 10 * (n div 10) + n mod 10"
      using False "1.IH" by (simp add: digit_val_digit_char)
    finally show ?thesis by simp
  qed
qed


lemma dec_nat_head: "\<exists>d cs. d < 10 \<and> dec_nat n = digit_char d # cs"
proof (induction n rule: dec_nat.induct)
  case (1 n)
  show ?case
  proof (cases "n < 10")
    case True
    then show ?thesis by (subst dec_nat.simps) auto
  next
    case False
    with "1.IH" obtain d cs where "d < 10" "dec_nat (n div 10) = digit_char d # cs" by blast
    then show ?thesis using False by (subst dec_nat.simps) auto
  qed
qed


subsection \<open>The columns of a record\<close>








subsection \<open>Plain data\<close>

lemma map_fields_id:
  assumes "\<And>k v. (k, v) \<in> set fs \<Longrightarrow> f v = v"
  shows "map (\<lambda>(k, v). (k, f v)) fs = fs"
  using assms by (induction fs) auto

lemma convertValues_plain: "plain v \<Longrightarrow> convertValues v = v"
proof (induction v rule: convertValues.induct)
  case (5 xs)
  then show ?case by (simp add: list_all_iff map_idI)
next
  case (6 fs)
  have "map (\<lambda>(k, v). (k, convertValues v)) fs = fs"
  proof (rule map_fields_id)
    fix k v assume kv: "(k, v) \<in> set fs"
    with "6.prems" have "plain v" by (auto simp: list_all_iff)
    with kv "6.IH" show "convertValues v = v" by blast
  qed
  then show ?case by simp
qed simp_all

text \<open>
  C8. On every plain value \<open>convertValues\<close> returns a value equal to its input. An array is
  normalized element by element and an object key by key, whatever they hold; \<^verbatim>\<open>null\<close>,
  \<^verbatim>\<open>undefined\<close>, booleans, numbers and strings pass through unchanged.
\<close>

theorem convertValues_plain_identity:
  "(plain v \<longrightarrow> convertValues v = v)
   \<and> convertValues (VArr xs) = VArr (map convertValues xs)
   \<and> convertValues (VObj fs) = VObj (map (\<lambda>(k, w). (k, convertValues w)) fs)
   \<and> convertValues VNull = VNull
   \<and> convertValues VUndefined = VUndefined
   \<and> convertValues (VBool b) = VBool b
   \<and> convertValues (VNum n) = VNum n
   \<and> convertValues (VStr s) = VStr s"
  by (simp add: convertValues_plain)

theorem convertValues_plain_identity_witness:
  "plain (VObj [(''name'', VStr ''Alex''), (''tags'', VArr [VNull, VNum 3, VObj [(''ok'', VBool True)]])])
   \<and> convertValues (VObj [(''name'', VStr ''Alex''), (''tags'', VArr [VNull, VNum 3, VObj [(''ok'', VBool True)]])])
       = VObj [(''name'', VStr ''Alex''), (''tags'', VArr [VNull, VNum 3, VObj [(''ok'', VBool True)]])]"
  using convertValues_plain_identity
    [of "VObj [(''name'', VStr ''Alex''), (''tags'', VArr [VNull, VNum 3, VObj [(''ok'', VBool True)]])]"]
  by simp

subsection \<open>The three versions of \<open>convertValues\<close>\<close>

lemma map_fields_cong:
  assumes "\<And>k v. (k, v) \<in> set fs \<Longrightarrow> f v = g v"
  shows "map (\<lambda>(k, v). (k, f v)) fs = map (\<lambda>(k, v). (k, g v)) fs"
  using assms by (induction fs) auto

lemma convertValues_js_eq: "no_temporal v \<Longrightarrow> convertValues_js v = convertValues v"
proof (induction v rule: convertValues.induct)
  case (4 i ls ps)
  have "map (\<lambda>(k, v). (k, convertValues_js v)) ps = map (\<lambda>(k, v). (k, convertValues v)) ps"
  proof (rule map_fields_cong)
    fix k v assume kv: "(k, v) \<in> set ps"
    with "4.prems" have "no_temporal v" by (auto simp: list_all_iff)
    with kv "4.IH" show "convertValues_js v = convertValues v" by blast
  qed
  then show ?case by simp
next
  case (5 xs)
  then show ?case by (simp add: list_all_iff)
next
  case (6 fs)
  have "map (\<lambda>(k, v). (k, convertValues_js v)) fs = map (\<lambda>(k, v). (k, convertValues v)) fs"
  proof (rule map_fields_cong)
    fix k v assume kv: "(k, v) \<in> set fs"
    with "6.prems" have "no_temporal v" by (auto simp: list_all_iff)
    with kv "6.IH" show "convertValues_js v = convertValues v" by blast
  qed
  then show ?case by simp
qed simp_all

lemma convertValues_part002_eq:
  "no_temporal v \<Longrightarrow> no_integer v \<Longrightarrow> convertValues_part002 v = convertValues v"
proof (induction v rule: convertValues.induct)
  case (4 i ls ps)
  have "map (\<lambda>(k, v). (k, convertValues_part002 v)) ps = map (\<lambda>(k, v). (k, convertValues v)) ps"
  proof (rule map_fields_cong)
    fix k v assume kv: "(k, v) \<in> set ps"
    with "4.prems" have "no_temporal v" "no_integer v" by (auto simp: list_all_iff)
    with kv "4.IH" show "convertValues_part002 v = convertValues v" by blast
  qed
  then show ?case by simp
next
  case (5 xs)
  then show ?case by (simp add: list_all_iff)
next
  case (6 fs)
  have "map (\<lambda>(k, v). (k, convertValues_part002 v)) fs = map (\<lambda>(k, v). (k, convertValues v)) fs"
  proof (rule map_fields_cong)
    fix k v assume kv: "(k, v) \<in> set fs"
    with "6.prems" have "no_temporal v" "no_integer v" by (auto simp: list_all_iff)
    with kv "6.IH" show "convertValues_part002 v = convertValues v" by blast
  qed
  then show ?case by simp
qed simp_all

text \<open>
  C9, as the claim states it, fails: on a driver integer \<^verbatim>\<open>src/src/index.ts\<close> returns a
  number and \<^verbatim>\<open>src/unnamed/part_002\<close> returns the \<^verbatim>\<open>Integer\<close> object; on a temporal value
  \<^verbatim>\<open>src/src/index.ts\<close> returns its string and the two other files return the object.
\<close>

theorem convertValues_versions_differ:
  "convertValues_part002 (VInt 5) \<noteq> convertValues (VInt 5)
   \<and> convertValues_part002 (VInt 5) \<noteq> convertValues_js (VInt 5)
   \<and> convertValues_js (VTemporal Date ''2020-01-31'') \<noteq> convertValues (VTemporal Date ''2020-01-31'')
   \<and> convertValues_part002 (VTemporal Date ''2020-01-31'') \<noteq> convertValues (VTemporal Date ''2020-01-31'')"
  by (simp add: inSafeRange_def MIN_SAFE_VALUE_def MAX_SAFE_VALUE_def toNumber_def)

text \<open>
  C9, amended. \<open>convertValues\<close> of \<^verbatim>\<open>src/src/index.ts\<close> and of \<^verbatim>\<open>src/index.js\<close> return the same
  result on every value that holds no temporal or spatial object, driver integers and Nodes
  included; all three versions return the same result on every value that holds neither a
  temporal or spatial object nor a driver integer.
\<close>

theorem convertValues_versions_agree:
  "(no_temporal v \<longrightarrow> convertValues_js v = convertValues v)
   \<and> (no_temporal v \<and> no_integer v \<longrightarrow>
        convertValues_part002 v = convertValues v \<and> convertValues_js v = convertValues v)"
  by (simp add: convertValues_js_eq convertValues_part002_eq)

theorem convertValues_versions_agree_witness:
  "no_temporal (VArr [VInt 7, VNode 1 [''Person''] [(''age'', VInt 30)]])
   \<and> convertValues_js (VArr [VInt 7, VNode 1 [''Person''] [(''age'', VInt 30)]])
       = VArr [VNum 7, VObj [(''age'', VNum 30)]]
   \<and> no_temporal (VNode 1 [''Person''] [(''name'', VStr ''Alex''), (''tags'', VArr [VNull])])
   \<and> no_integer (VNode 1 [''Person''] [(''name'', VStr ''Alex''), (''tags'', VArr [VNull])])
   \<and> convertValues_part002 (VNode 1 [''Person''] [(''name'', VStr ''Alex''), (''tags'', VArr [VNull])])
       = VObj [(''name'', VStr ''Alex''), (''tags'', VArr [VNull])]"
  using convertValues_versions_agree [of "VArr [VInt 7, VNode 1 [''Person''] [(''age'', VInt 30)]]"]
    convertValues_versions_agree
      [of "VNode 1 [''Person''] [(''name'', VStr ''Alex''), (''tags'', VArr [VNull])]"]
  by (simp add: inSafeRange_def MIN_SAFE_VALUE_def MAX_SAFE_VALUE_def toNumber_def)

section \<open>Properties of the pruner\<close>

subsection \<open>What one call does to the properties\<close>

lemma visit_Inr:
  "(case v of VArr xs \<Rightarrow> map_sum id VArr (removeEmptyArrays xs ak ck) | _ \<Rightarrow> Inr v) = Inr v'
   \<longleftrightarrow> visited ak ck v v'"
  by (cases v; cases "removeEmptyArrays (case v of VArr xs \<Rightarrow> xs | _ \<Rightarrow> []) ak ck")
     (auto simp: visited_def)

lemma for_in_props_Inr:
  "for_in_props fs ak ck = Inr fs' \<Longrightarrow>
   list_all2 (\<lambda>p p'. fst p' = fst p \<and> visited ak ck (snd p) (snd p')) fs fs'"
proof (induction fs arbitrary: fs')
  case Nil then show ?case by simp
next
  case (Cons p fs)
  obtain k v where p: "p = (k, v)" by (cases p)
  from Cons.prems obtain v' fs'' where
    v: "(case v of VArr xs \<Rightarrow> map_sum id VArr (removeEmptyArrays xs ak ck) | _ \<Rightarrow> Inr v) = Inr v'"
    and r: "for_in_props fs ak ck = Inr fs''" and e: "fs' = (k, v') # fs''"
    unfolding p by (auto split: sum.splits)
  from v have "visited ak ck v v'" by (simp only: visit_Inr)
  with Cons.IH [OF r] show ?case by (simp add: p e)
qed

lemma for_in_items_Inr:
  "for_in_items xs ak ck = Inr xs' \<Longrightarrow> list_all2 (visited ak ck) xs xs'"
proof (induction xs arbitrary: xs')
  case Nil then show ?case by simp
next
  case (Cons v xs)
  from Cons.prems obtain v' xs'' where
    v: "(case v of VArr ys \<Rightarrow> map_sum id VArr (removeEmptyArrays ys ak ck) | _ \<Rightarrow> Inr v) = Inr v'"
    and r: "for_in_items xs ak ck = Inr xs''" and e: "xs' = v' # xs''"
    by (auto split: sum.splits)
  from v have "visited ak ck v v'" by (simp only: visit_Inr)
  with Cons.IH [OF r] show ?case by (simp add: e)
qed

lemma removeEmptyArrays_ConsD:
  assumes "removeEmptyArrays (e # es) ak ck = Inr d'"
  obtains e' es' where "d' = e' # es'" "\<not> nullish e"
    "for_in (empty_step ak ck e) ak ck = Inr e'" "removeEmptyArrays es ak ck = Inr es'"
  using assms by (auto split: sum.splits if_splits)

text \<open>What a visit keeps.\<close>

lemma visited_keeps:
  assumes "visited ak ck v v'"
  shows "(v' = VNull \<longleftrightarrow> v = VNull)" "truthy v' = truthy v" "nullish v' = nullish v"
    "isArray v' = isArray v" "\<not> isArray v \<Longrightarrow> v' = v"
  using assms by (cases v; auto simp: visited_def)+

lemma visited_undefined: "visited ak ck VUndefined v' \<longleftrightarrow> v' = VUndefined"
  by (simp add: visited_def)

lemma props_map_of:
  assumes "list_all2 (\<lambda>p p'. fst p' = fst p \<and> visited ak ck (snd p) (snd p')) fs fs'"
  shows "rel_option (visited ak ck) (map_of fs k) (map_of fs' k)"
  using assms by (induction fs fs' rule: list_all2_induct) auto

lemma for_in_get_prop:
  assumes "for_in e ak ck = Inr e'"
  shows "visited ak ck (get_prop e k) (get_prop e' k)"
proof (cases e)
  case (VObj fs)
  with assms obtain fs' where fs': "for_in_props fs ak ck = Inr fs'" "e' = VObj fs'"
    by (cases "for_in_props fs ak ck") auto
  from props_map_of [OF for_in_props_Inr [OF fs'(1)], of k]
  show ?thesis unfolding VObj fs'(2)
    by (cases "map_of fs k"; cases "map_of fs' k") (auto simp: visited_undefined)
next
  case (VArr xs)
  with assms obtain xs' where xs': "for_in_items xs ak ck = Inr xs'" "e' = VArr xs'"
    by (cases "for_in_items xs ak ck") auto
  from for_in_items_Inr [OF xs'(1)] have l: "list_all2 (visited ak ck) xs xs'" .
  then have len: "length xs' = length xs" by (simp add: list_all2_lengthD)
  show ?thesis
  proof (cases "array_index k")
    case None
    then show ?thesis unfolding VArr xs'(2) by (simp add: len visited_def)
  next
    case (Some i)
    show ?thesis
    proof (cases "i < length xs")
      case True
      with l have "visited ak ck (xs ! i) (xs' ! i)" by (simp add: list_all2_nthD)
      then show ?thesis unfolding VArr xs'(2) by (simp add: Some True len)
    next
      case False
      then show ?thesis unfolding VArr xs'(2) by (simp add: Some len visited_def)
    qed
  qed
next
  case (VStr s)
  with assms show ?thesis by (auto simp: visited_def split: option.splits)
qed (use assms in \<open>auto simp: visited_def\<close>)

lemma for_in_keeps:
  assumes "for_in e ak ck = Inr e'"
  shows "truthy e' = truthy e" and "nullish e' = nullish e"
proof -
  have "truthy e' = truthy e \<and> nullish e' = nullish e"
  proof (cases e)
    case (VObj fs)
    with assms show ?thesis by (cases "for_in_props fs ak ck") auto
  next
    case (VArr xs)
    with assms show ?thesis by (cases "for_in_items xs ak ck") auto
  qed (use assms in auto)
  then show "truthy e' = truthy e" and "nullish e' = nullish e" by simp_all
qed

lemma empty_step_keeps:
  "truthy (empty_step ak ck e) = truthy e" "nullish (empty_step ak ck e) = nullish e"
  by (cases e; simp add: empty_step_def split: option.splits)
     (cases e; simp add: empty_step_def split: option.splits)

lemma empty_step_get_prop:
  "get_prop (empty_step ak ck e) k = get_prop e k
   \<or> (isArray (get_prop e k) \<and> get_prop (empty_step ak ck e) k = VArr [])"
proof (cases "empties ak ck e")
  case False then show ?thesis by (simp add: empty_step_def)
next
  case True
  then have a: "isArray (get_prop e ak)" by (simp add: empties_def)
  show ?thesis
  proof (cases e)
    case (VObj fs)
    then show ?thesis using True a
      by (cases "k = ak") (auto simp: empty_step_def update_conv split: option.splits)
  next
    case (VArr xs)
    then show ?thesis using True a
      by (auto simp: empty_step_def nth_list_update split: option.splits if_splits)
  qed (use True in \<open>auto simp: empty_step_def\<close>)
qed

lemma empty_step_emptied:
  assumes "empties ak ck e"
  shows "get_prop (empty_step ak ck e) ak = VArr []"
proof -
  from assms have a: "isArray (get_prop e ak)" by (simp add: empties_def)
  show ?thesis
  proof (cases e)
    case (VObj fs)
    then show ?thesis using assms by (simp add: empty_step_def update_conv)
  next
    case (VArr xs)
    then show ?thesis using assms a
      by (auto simp: empty_step_def split: option.splits if_splits)
  qed (use a in \<open>auto split: option.splits if_splits\<close>)
qed

lemma body_null_prop:
  assumes "for_in (empty_step ak ck x) ak ck = Inr x'"
  shows "get_prop x' k = VNull \<longleftrightarrow> get_prop x k = VNull"
proof -
  have "get_prop x' k = VNull \<longleftrightarrow> get_prop (empty_step ak ck x) k = VNull"
    using visited_keeps(1) [OF for_in_get_prop [OF assms, of k]] .
  also have "\<dots> \<longleftrightarrow> get_prop x k = VNull"
    using empty_step_get_prop [of ak ck x k] by (cases "get_prop x k") auto
  finally show ?thesis .
qed

lemma body_not_empties:
  assumes "for_in (empty_step ak ck e) ak ck = Inr e'"
  shows "\<not> empties ak ck e'"
proof (cases "empties ak ck e")
  case True
  from for_in_get_prop [OF assms, of ak] have "get_prop e' ak = VArr []"
    by (simp add: empty_step_emptied [OF True] visited_def)
  then show ?thesis by (simp add: empties_def)
next
  case False
  then have e1: "empty_step ak ck e = e" by (simp add: empty_step_def)
  from for_in_get_prop [OF assms, of ak] have v: "visited ak ck (get_prop e ak) (get_prop e' ak)"
    by (simp add: e1)
  show ?thesis
  proof (cases "get_prop e ak")
    case (VArr xs)
    with v obtain xs' where xs': "get_prop e' ak = VArr xs'" "removeEmptyArrays xs ak ck = Inr xs'"
      by (auto simp: visited_def)
    show ?thesis
    proof (cases xs)
      case Nil
      with xs' show ?thesis by (simp add: empties_def)
    next
      case (Cons x ys)
      from xs'(2) [unfolded Cons] obtain x' ys' where x': "xs' = x' # ys'" "\<not> nullish x"
        "for_in (empty_step ak ck x) ak ck = Inr x'"
        by (rule removeEmptyArrays_ConsD)
      have "truthy x' = truthy x"
        using for_in_keeps(1) [OF x'(3)] by (simp add: empty_step_keeps)
      moreover have "get_prop x' ck = VNull \<longleftrightarrow> get_prop x ck = VNull"
        using body_null_prop [OF x'(3)] .
      ultimately show ?thesis using False VArr Cons xs'(1) x'(1)
        by (simp add: empties_def)
    qed
  qed (use v in \<open>auto simp: visited_def empties_def\<close>)
qed

lemma removeEmptyArrays_fixed:
  "(\<forall>d'. removeEmptyArrays d ak ck = Inr d' \<longrightarrow> removeEmptyArrays d' ak ck = Inr d')"
  "(\<forall>e'. for_in e ak ck = Inr e' \<longrightarrow> for_in e' ak ck = Inr e')"
  "(\<forall>fs'. for_in_props fs ak ck = Inr fs' \<longrightarrow> for_in_props fs' ak ck = Inr fs')"
  "(\<forall>xs'. for_in_items xs ak ck = Inr xs' \<longrightarrow> for_in_items xs' ak ck = Inr xs')"
proof (induction d ak ck and e ak ck and fs ak ck and xs ak ck
    rule: removeEmptyArrays_for_in_for_in_props_for_in_items.induct)
  case (2 e es ak ck)
  show ?case
  proof (intro allI impI)
    fix d' assume "removeEmptyArrays (e # es) ak ck = Inr d'"
    then obtain e' es' where d': "d' = e' # es'" "\<not> nullish e"
      "for_in (empty_step ak ck e) ak ck = Inr e'" "removeEmptyArrays es ak ck = Inr es'"
      by (rule removeEmptyArrays_ConsD)
    have n: "\<not> nullish e'"
      using for_in_keeps(2) [OF d'(3)] d'(2) by (simp add: empty_step_keeps)
    have s: "empty_step ak ck e' = e'"
      using body_not_empties [OF d'(3)] by (simp add: empty_step_def)
    have f: "for_in e' ak ck = Inr e'" using "2.IH"(1) d'(2,3) by blast
    have r: "removeEmptyArrays es' ak ck = Inr es'" using "2.IH"(2) d'(2,3,4) by blast
    show "removeEmptyArrays d' ak ck = Inr d'"
      by (simp add: d'(1) n s f r)
  qed
next
  case (3 fs ak ck)
  then show ?case by (cases "for_in_props fs ak ck") auto
next
  case (4 xs ak ck)
  then show ?case by (cases "for_in_items xs ak ck") auto
next
  case (14 key v fs ak ck)
  show ?case
  proof (intro allI impI)
    fix fs' assume a: "for_in_props ((key, v) # fs) ak ck = Inr fs'"
    then obtain v' fs'' where
      v: "(case v of VArr xs \<Rightarrow> map_sum id VArr (removeEmptyArrays xs ak ck) | _ \<Rightarrow> Inr v) = Inr v'"
      and r: "for_in_props fs ak ck = Inr fs''" and e: "fs' = (key, v') # fs''"
      by (auto split: sum.splits)
    from v have vis: "visited ak ck v v'" by (simp only: visit_Inr)
    have "visited ak ck v' v'"
    proof (cases v)
      case (VArr xs)
      with vis obtain xs' where "v' = VArr xs'" "removeEmptyArrays xs ak ck = Inr xs'"
        by (auto simp: visited_def)
      with "14.IH"(1) [OF VArr] show ?thesis by (simp add: visited_def)
    qed (use vis in \<open>auto simp: visited_def\<close>)
    then have "(case v' of VArr xs \<Rightarrow> map_sum id VArr (removeEmptyArrays xs ak ck) | _ \<Rightarrow> Inr v') = Inr v'"
      by (simp only: visit_Inr)
    moreover have "for_in_props fs'' ak ck = Inr fs''" using "14.IH"(2) [OF v] r by blast
    ultimately show "for_in_props fs' ak ck = Inr fs'" by (simp add: e)
  qed
next
  case (16 v xs ak ck)
  show ?case
  proof (intro allI impI)
    fix xs' assume a: "for_in_items (v # xs) ak ck = Inr xs'"
    then obtain v' xs'' where
      v: "(case v of VArr ys \<Rightarrow> map_sum id VArr (removeEmptyArrays ys ak ck) | _ \<Rightarrow> Inr v) = Inr v'"
      and r: "for_in_items xs ak ck = Inr xs''" and e: "xs' = v' # xs''"
      by (auto split: sum.splits)
    from v have vis: "visited ak ck v v'" by (simp only: visit_Inr)
    have "visited ak ck v' v'"
    proof (cases v)
      case (VArr ys)
      with vis obtain ys' where "v' = VArr ys'" "removeEmptyArrays ys ak ck = Inr ys'"
        by (auto simp: visited_def)
      with "16.IH"(1) [OF VArr] show ?thesis by (simp add: visited_def)
    qed (use vis in \<open>auto simp: visited_def\<close>)
    then have "(case v' of VArr ys \<Rightarrow> map_sum id VArr (removeEmptyArrays ys ak ck) | _ \<Rightarrow> Inr v') = Inr v'"
      by (simp only: visit_Inr)
    moreover have "for_in_items xs'' ak ck = Inr xs''" using "16.IH"(2) [OF v] r by blast
    ultimately show "for_in_items xs' ak ck = Inr xs'" by (simp add: e)
  qed
qed simp_all

text \<open>
  C5. Applying \<open>removeEmptyArrays\<close> to its own result, with the same keys, returns that
  result again; and where the first call throws, so does the call after it. So applying
  it twice yields what applying it once yields, for every \<^verbatim>\<open>data\<close> and every pair of keys.
\<close>

theorem removeEmptyArrays_idempotent:
  "(case removeEmptyArrays data arrayKey checkKey of
      Inl err \<Rightarrow> Inl err
    | Inr data' \<Rightarrow> removeEmptyArrays data' arrayKey checkKey)
   = removeEmptyArrays data arrayKey checkKey"
  using removeEmptyArrays_fixed(1) [of data arrayKey checkKey]
  by (cases "removeEmptyArrays data arrayKey checkKey") auto

theorem removeEmptyArrays_idempotent_witness:
  "removeEmptyArrays
     [VObj [(''name'', VStr ''Alex''),
            (''friends'', VArr [VObj [(''address'', VNull), (''name'', VNull)]])]]
     ''friends'' ''name''
   = Inr [VObj [(''name'', VStr ''Alex''), (''friends'', VArr [])]]
   \<and> removeEmptyArrays [VObj [(''name'', VStr ''Alex''), (''friends'', VArr [])]] ''friends'' ''name''
   = Inr [VObj [(''name'', VStr ''Alex''), (''friends'', VArr [])]]"
  using removeEmptyArrays_idempotent
    [where data = "[VObj [(''name'', VStr ''Alex''),
            (''friends'', VArr [VObj [(''address'', VNull), (''name'', VNull)]])]]"
       and arrayKey = "''friends''" and checkKey = "''name''"]
  by (simp add: empty_step_def empties_def)

subsection \<open>The emptying rule\<close>

lemma removeEmptyArrays_Inr:
  "removeEmptyArrays data ak ck = Inr data' \<Longrightarrow>
   list_all2 (\<lambda>e e'. \<not> nullish e \<and> for_in (empty_step ak ck e) ak ck = Inr e') data data'"
proof (induction data arbitrary: data')
  case Nil
  then show ?case by simp
next
  case (Cons e es)
  from Cons.prems obtain e' es' where d: "data' = e' # es'" "\<not> nullish e"
    "for_in (empty_step ak ck e) ak ck = Inr e'" "removeEmptyArrays es ak ck = Inr es'"
    by (rule removeEmptyArrays_ConsD)
  with Cons.IH [OF d(4)] show ?case by simp
qed

text \<open>
  Whenever the call returns: the result has the length of \<^verbatim>\<open>data\<close>; an element whose array
  at \<^verbatim>\<open>arrayKey\<close> has a first element that is truthy and has \<^verbatim>\<open>null\<close> at \<^verbatim>\<open>checkKey\<close> ends
  with the empty array there; in any other element every property, the one at
  \<^verbatim>\<open>arrayKey\<close> included, is what the recursive call returns for it when it is an array and
  is unchanged when it is not.
\<close>

lemma removeEmptyArrays_rule:
  assumes "removeEmptyArrays data ak ck = Inr data'"
  shows "length data' = length data"
    and "i < length data \<Longrightarrow> empties ak ck (data ! i) \<Longrightarrow> get_prop (data' ! i) ak = VArr []"
    and "i < length data \<Longrightarrow> \<not> empties ak ck (data ! i) \<Longrightarrow>
           visited ak ck (get_prop (data ! i) k) (get_prop (data' ! i) k)"
proof -
  note l = removeEmptyArrays_Inr [OF assms]
  show len: "length data' = length data" using l by (simp add: list_all2_lengthD)
  {
    assume i: "i < length data"
    from list_all2_nthD [OF l i]
    have f: "for_in (empty_step ak ck (data ! i)) ak ck = Inr (data' ! i)" by simp
    {
      assume e: "empties ak ck (data ! i)"
      from for_in_get_prop [OF f, of ak] show "get_prop (data' ! i) ak = VArr []"
        by (simp add: empty_step_emptied [OF e] visited_def)
    }
    {
      assume "\<not> empties ak ck (data ! i)"
      then have "empty_step ak ck (data ! i) = data ! i" by (simp add: empty_step_def)
      with for_in_get_prop [OF f, of k]
      show "visited ak ck (get_prop (data ! i) k) (get_prop (data' ! i) k)" by simp
    }
  }
qed

text \<open>
  The example of the README: \<^verbatim>\<open>friends: [ { address: null, name: null } ]\<close> with the keys
  \<^verbatim>\<open>'friends'\<close> and \<^verbatim>\<open>'name'\<close> becomes \<^verbatim>\<open>friends: []\<close>; an array of friends whose first
  element has a name stays, and the rule reaches the friends of that friend.
\<close>

lemma removeEmptyArrays_examples:
  "removeEmptyArrays
     [VObj [(''name'', VStr ''Alex''),
            (''friends'', VArr [VObj [(''address'', VNull), (''name'', VNull)]])]]
     ''friends'' ''name''
   = Inr [VObj [(''name'', VStr ''Alex''), (''friends'', VArr [])]]"
  "removeEmptyArrays
     [VObj [(''friends'', VArr [VObj [(''name'', VStr ''Bob''),
                                      (''friends'', VArr [VObj [(''name'', VNull)]])]])]]
     ''friends'' ''name''
   = Inr [VObj [(''friends'', VArr [VObj [(''name'', VStr ''Bob''), (''friends'', VArr [])]])]]"
  by (simp_all add: empty_step_def empties_def)

text \<open>
  C4. The rule is not applied through every array-valued field of every record: when an
  array that the recursion walks through holds \<^verbatim>\<open>null\<close> (or \<^verbatim>\<open>undefined\<close>), the call reads
  \<^verbatim>\<open>data[i][arrayKey]\<close> of it and throws. For the one record \<^verbatim>\<open>{tags: [null]}\<close> and the keys
  \<^verbatim>\<open>'friends'\<close>, \<^verbatim>\<open>'name'\<close> the call ends in a \<^verbatim>\<open>TypeError\<close>; so it does when a record
  follows whose \<^verbatim>\<open>friends\<close> is \<^verbatim>\<open>[{name: null}]\<close>, which is then never emptied; and so it does
  when \<^verbatim>\<open>friends\<close> itself begins with \<^verbatim>\<open>null\<close>.
\<close>

theorem removeEmptyArrays_null_element:
  "removeEmptyArrays [VObj [(''tags'', VArr [VNull])]] ''friends'' ''name'' = Inl TypeError
   \<and> removeEmptyArrays
        [VObj [(''tags'', VArr [VNull])], VObj [(''friends'', VArr [VObj [(''name'', VNull)]])]]
        ''friends'' ''name'' = Inl TypeError
   \<and> removeEmptyArrays
        [VObj [(''friends'', VArr [VNull, VObj [(''name'', VStr ''Bob'')]])]]
        ''friends'' ''name'' = Inl TypeError"
  by (simp add: empty_step_def empties_def)

section \<open>Properties of the bootstrap\<close>

lemma emit_emit: "emit b (emit a w) = emit (a @ b) w"
  by (simp add: emit_def)

lemma emit_fields [simp]:
  "config_var (emit evs w) = config_var w" "driver_var (emit evs w) = driver_var w"
  "multiDBSupport (emit evs w) = multiDBSupport w" "drivers (emit evs w) = drivers w"
  "trace (emit evs w) = trace w @ evs"
  by (simp_all add: emit_def)

lemma connect_retry:
  assumes "config_var w = Some cfg" and "new_driver env cfg = None"
    and "\<forall>k<n. \<exists>r. verifyConnectivity env (drivers w + k) = Inl r"
    and "verifyConnectivity env (drivers w + n) = Inr info"
    and "n \<le> numberOfTrials"
  shows "connect env numberOfTrials w =
           (Inr info,
            emit (concat (map (\<lambda>k. retry_events (drivers w + k)) [0..<n]) @ attempt_events (drivers w + n))
              (w\<lparr>driver_var := Some (drivers w + n), drivers := Suc (drivers w + n)\<rparr>))"
  using assms
proof (induction n arbitrary: numberOfTrials w)
  case 0
  then show ?case
    by (subst connect.simps) (simp add: emit_def attempt_events_def Let_def)
next
  case (Suc n)
  from Suc.prems(3) obtain r where r: "verifyConnectivity env (drivers w) = Inl r" by force
  let ?w1 = "emit (retry_events (drivers w)) (w\<lparr>driver_var := Some (drivers w), drivers := Suc (drivers w)\<rparr>)"
  have step: "connect env numberOfTrials w = connect env (numberOfTrials - 1) ?w1"
    using Suc.prems(1,2,5) r
    by (subst connect.simps) (simp add: emit_def retry_events_def Let_def)
  have fails: "\<forall>k<n. \<exists>r. verifyConnectivity env (drivers ?w1 + k) = Inl r"
  proof (intro allI impI)
    fix k assume "k < n"
    then have "Suc k < Suc n" by simp
    with Suc.prems(3) have "\<exists>r. verifyConnectivity env (drivers w + Suc k) = Inl r" by blast
    then show "\<exists>r. verifyConnectivity env (drivers ?w1 + k) = Inl r" by simp
  qed
  have ok: "verifyConnectivity env (drivers ?w1 + n) = Inr info"
    using Suc.prems(4) by simp
  have "connect env (numberOfTrials - 1) ?w1 =
          (Inr info,
           emit (concat (map (\<lambda>k. retry_events (drivers ?w1 + k)) [0..<n]) @ attempt_events (drivers ?w1 + n))
             (?w1\<lparr>driver_var := Some (drivers ?w1 + n), drivers := Suc (drivers ?w1 + n)\<rparr>))"
    using Suc.prems(1,2,5) by (intro Suc.IH fails ok) simp_all
  also have "\<dots> =
          (Inr info,
           emit (concat (map (\<lambda>k. retry_events (drivers w + k)) [0..<Suc n]) @ attempt_events (drivers w + Suc n))
             (w\<lparr>driver_var := Some (drivers w + Suc n), drivers := Suc (drivers w + Suc n)\<rparr>))"
  proof -
    have "map (\<lambda>k. retry_events (drivers w + k)) [0..<Suc n]
          = retry_events (drivers w) # map (\<lambda>k. retry_events (Suc (drivers w + k))) [0..<n]"
      by (simp add: upt_conv_Cons map_Suc_upt [symmetric] del: upt_Suc)
    then show ?thesis by (simp add: emit_def)
  qed
  finally show ?case using step by simp
qed

lemma connect_exhausted:
  assumes "config_var w = Some cfg" and "new_driver env cfg = None"
    and "\<forall>k\<le>numberOfTrials. \<exists>r. verifyConnectivity env (drivers w + k) = Inl r"
  shows "fst (connect env numberOfTrials w) = verifyConnectivity env (drivers w + numberOfTrials)"
  using assms
proof (induction numberOfTrials arbitrary: w)
  case 0
  then obtain r where "verifyConnectivity env (drivers w) = Inl r" by force
  with 0 show ?case by (subst connect.simps) (simp add: Let_def)
next
  case (Suc n)
  from Suc.prems(3) obtain r where r: "verifyConnectivity env (drivers w) = Inl r" by force
  let ?w1 = "emit (retry_events (drivers w)) (w\<lparr>driver_var := Some (drivers w), drivers := Suc (drivers w)\<rparr>)"
  have step: "connect env (Suc n) w = connect env n ?w1"
    using Suc.prems(1,2) r
    by (subst connect.simps) (simp add: emit_def retry_events_def Let_def)
  have fails: "\<forall>k\<le>n. \<exists>r. verifyConnectivity env (drivers ?w1 + k) = Inl r"
  proof (intro allI impI)
    fix k assume "k \<le> n"
    then have "Suc k \<le> Suc n" by simp
    with Suc.prems(3) have "\<exists>r. verifyConnectivity env (drivers w + Suc k) = Inl r" by blast
    then show "\<exists>r. verifyConnectivity env (drivers ?w1 + k) = Inl r" by simp
  qed
  have "fst (connect env n ?w1) = verifyConnectivity env (drivers ?w1 + n)"
    using Suc.prems(1,2) by (intro Suc.IH fails) simp_all
  then show ?case using step by simp
qed

subsection \<open>The version pattern, without the search\<close>

lemma le_length_takeWhile:
  "n \<le> length (takeWhile P s) \<longleftrightarrow> n \<le> length s \<and> list_all P (take n s)"
proof (induction s arbitrary: n)
  case Nil
  then show ?case by simp
next
  case (Cons c s)
  then show ?case by (cases n) auto
qed

lemma digit_runs_iff:
  "n \<in> set (digit_runs s) \<longleftrightarrow> 1 \<le> n \<and> n \<le> length s \<and> list_all is_digit (take n s)"
  using le_length_takeWhile [of n is_digit s] by (auto simp: digit_runs_def)

lemma dot_digits_iff:
  "dot_digits s \<longleftrightarrow> (\<exists>c d rest. s = c # d # rest \<and> \<not> line_terminator c \<and> is_digit d)"
  by (cases s rule: dot_digits.cases) auto

lemma digits_then_iff:
  "(\<exists>n\<in>set (digit_runs s). Q (drop n s)) \<longleftrightarrow>
   (\<exists>ds rest. s = ds @ rest \<and> ds \<noteq> [] \<and> list_all is_digit ds \<and> Q rest)"
proof
  assume "\<exists>n\<in>set (digit_runs s). Q (drop n s)"
  then obtain n where n: "1 \<le> n" "n \<le> length s" "list_all is_digit (take n s)" "Q (drop n s)"
    by (auto simp: digit_runs_iff)
  have "s = take n s @ drop n s" by simp
  moreover have "take n s \<noteq> []" using n(1,2) by auto
  ultimately show "\<exists>ds rest. s = ds @ rest \<and> ds \<noteq> [] \<and> list_all is_digit ds \<and> Q rest"
    using n(3,4) by blast
next
  assume "\<exists>ds rest. s = ds @ rest \<and> ds \<noteq> [] \<and> list_all is_digit ds \<and> Q rest"
  then obtain ds rest where d: "s = ds @ rest" "ds \<noteq> []" "list_all is_digit ds" "Q rest" by blast
  have "length ds \<in> set (digit_runs s)"
    using d(1,2,3) by (simp add: digit_runs_iff Suc_le_eq)
  moreover have "Q (drop (length ds) s)" using d(1,4) by simp
  ultimately show "\<exists>n\<in>set (digit_runs s). Q (drop n s)" by blast
qed

lemma dot_digits_dot_digits_iff:
  "dot_digits_dot_digits s \<longleftrightarrow>
   (\<exists>c1 minor c2 d rest. s = c1 # minor @ c2 # d # rest \<and> \<not> line_terminator c1
      \<and> minor \<noteq> [] \<and> list_all is_digit minor \<and> \<not> line_terminator c2 \<and> is_digit d)"
proof (cases s)
  case Nil
  then show ?thesis by simp
next
  case (Cons c s')
  have "dot_digits_dot_digits s \<longleftrightarrow>
        \<not> line_terminator c \<and> (\<exists>n\<in>set (digit_runs s'). dot_digits (drop n s'))"
    by (simp add: Cons list_ex_iff)
  also have "\<dots> \<longleftrightarrow> \<not> line_terminator c \<and>
        (\<exists>ds rest. s' = ds @ rest \<and> ds \<noteq> [] \<and> list_all is_digit ds \<and> dot_digits rest)"
    by (simp only: digits_then_iff)
  also have "\<dots> \<longleftrightarrow> (\<exists>c1 minor c2 d rest. s = c1 # minor @ c2 # d # rest \<and> \<not> line_terminator c1
      \<and> minor \<noteq> [] \<and> list_all is_digit minor \<and> \<not> line_terminator c2 \<and> is_digit d)"
  proof
    assume "\<not> line_terminator c \<and>
        (\<exists>ds rest. s' = ds @ rest \<and> ds \<noteq> [] \<and> list_all is_digit ds \<and> dot_digits rest)"
    then obtain ds rest where a: "\<not> line_terminator c" "s' = ds @ rest" "ds \<noteq> []"
      "list_all is_digit ds" "dot_digits rest" by blast
    from a(5) obtain c2 d rest' where b: "rest = c2 # d # rest'" "\<not> line_terminator c2" "is_digit d"
      unfolding dot_digits_iff by blast
    have "s = c # ds @ c2 # d # rest'" using Cons a(2) b(1) by simp
    with a(1,3,4) b(2,3) show "\<exists>c1 minor c2 d rest. s = c1 # minor @ c2 # d # rest \<and> \<not> line_terminator c1
      \<and> minor \<noteq> [] \<and> list_all is_digit minor \<and> \<not> line_terminator c2 \<and> is_digit d" by blast
  next
    assume "\<exists>c1 minor c2 d rest. s = c1 # minor @ c2 # d # rest \<and> \<not> line_terminator c1
      \<and> minor \<noteq> [] \<and> list_all is_digit minor \<and> \<not> line_terminator c2 \<and> is_digit d"
    then obtain c1 minor c2 d rest where a: "s = c1 # minor @ c2 # d # rest" "\<not> line_terminator c1"
      "minor \<noteq> []" "list_all is_digit minor" "\<not> line_terminator c2" "is_digit d" by blast
    from a(1) Cons have c: "c1 = c" "s' = minor @ c2 # d # rest" by simp_all
    have "dot_digits (c2 # d # rest)" using a(5,6) by simp
    with a(2,3,4) c show "\<not> line_terminator c \<and>
        (\<exists>ds rest. s' = ds @ rest \<and> ds \<noteq> [] \<and> list_all is_digit ds \<and> dot_digits rest)" by blast
  qed
  finally show ?thesis .
qed

lemma take6_iff: "take 6 v = ''Neo4j/'' \<longleftrightarrow> (\<exists>s. v = ''Neo4j/'' @ s)"
proof
  assume t: "take 6 v = ''Neo4j/''"
  have "v = take 6 v @ drop 6 v" by simp
  with t show "\<exists>s. v = ''Neo4j/'' @ s" by metis
next
  assume "\<exists>s. v = ''Neo4j/'' @ s"
  then show "take 6 v = ''Neo4j/''" by auto
qed

lemma version_exec_Some_iff:
  "(\<exists>m. version_exec v = Some m) \<longleftrightarrow> matches_pattern v"
proof -
  have "(\<exists>m. version_exec v = Some m) \<longleftrightarrow>
        take 6 v = ''Neo4j/'' \<and>
        (\<exists>n\<in>set (digit_runs (drop 6 v)). dot_digits_dot_digits (drop n (drop 6 v)))"
  proof -
    let ?P = "\<lambda>n. dot_digits_dot_digits (drop n (drop 6 v))"
    have "(\<exists>m. version_exec v = Some m) \<longleftrightarrow>
          take 6 v = ''Neo4j/'' \<and> find ?P (digit_runs (drop 6 v)) \<noteq> None"
      unfolding version_exec_def by (cases "take 6 v = ''Neo4j/''") auto
    moreover have "find ?P (digit_runs (drop 6 v)) \<noteq> None \<longleftrightarrow>
          (\<exists>n\<in>set (digit_runs (drop 6 v)). ?P n)"
      unfolding find_None_iff by blast
    ultimately show ?thesis by blast
  qed
  also have "\<dots> \<longleftrightarrow> take 6 v = ''Neo4j/'' \<and>
        (\<exists>ds rest. drop 6 v = ds @ rest \<and> ds \<noteq> [] \<and> list_all is_digit ds \<and> dot_digits_dot_digits rest)"
    by (simp only: digits_then_iff)
  also have "\<dots> \<longleftrightarrow> (\<exists>s ds rest. v = ''Neo4j/'' @ s \<and> s = ds @ rest \<and> ds \<noteq> [] \<and> list_all is_digit ds
        \<and> dot_digits_dot_digits rest)"
  proof
    assume a: "take 6 v = ''Neo4j/'' \<and>
        (\<exists>ds rest. drop 6 v = ds @ rest \<and> ds \<noteq> [] \<and> list_all is_digit ds \<and> dot_digits_dot_digits rest)"
    then have "v = ''Neo4j/'' @ drop 6 v" by (metis append_take_drop_id)
    with a show "\<exists>s ds rest. v = ''Neo4j/'' @ s \<and> s = ds @ rest \<and> ds \<noteq> [] \<and> list_all is_digit ds
        \<and> dot_digits_dot_digits rest" by blast
  next
    assume "\<exists>s ds rest. v = ''Neo4j/'' @ s \<and> s = ds @ rest \<and> ds \<noteq> [] \<and> list_all is_digit ds
        \<and> dot_digits_dot_digits rest"
    then obtain ds rest where b: "v = ''Neo4j/'' @ ds @ rest" "ds \<noteq> []" "list_all is_digit ds"
      "dot_digits_dot_digits rest" by blast
    from b(1) have "take 6 v = ''Neo4j/''" "drop 6 v = ds @ rest" by simp_all
    with b(2-4) show "take 6 v = ''Neo4j/'' \<and>
        (\<exists>ds rest. drop 6 v = ds @ rest \<and> ds \<noteq> [] \<and> list_all is_digit ds \<and> dot_digits_dot_digits rest)"
      by blast
  qed
  also have "\<dots> \<longleftrightarrow> matches_pattern v"
  proof
    assume "\<exists>s ds rest. v = ''Neo4j/'' @ s \<and> s = ds @ rest \<and> ds \<noteq> [] \<and> list_all is_digit ds
        \<and> dot_digits_dot_digits rest"
    then obtain ds rest where a: "v = ''Neo4j/'' @ ds @ rest" "ds \<noteq> []" "list_all is_digit ds"
      "dot_digits_dot_digits rest" by blast
    from a(4) obtain c1 minor c2 d rest' where b: "rest = c1 # minor @ c2 # d # rest'"
      "\<not> line_terminator c1" "minor \<noteq> []" "list_all is_digit minor" "\<not> line_terminator c2" "is_digit d"
      unfolding dot_digits_dot_digits_iff by blast
    have "v = ''Neo4j/'' @ ds @ [c1] @ minor @ [c2] @ [d] @ rest'" using a(1) b(1) by simp
    with a(2,3) b(2-6) show "matches_pattern v"
      unfolding matches_pattern_def by (intro exI [of _ ds] exI [of _ c1] exI [of _ minor] exI [of _ c2] exI [of _ "[d]"] exI [of _ rest']) simp
  next
    assume "matches_pattern v"
    then obtain major c1 minor c2 patch rest where m:
      "v = ''Neo4j/'' @ major @ [c1] @ minor @ [c2] @ patch @ rest"
      "major \<noteq> []" "list_all is_digit major" "\<not> line_terminator c1"
      "minor \<noteq> []" "list_all is_digit minor" "\<not> line_terminator c2"
      "patch \<noteq> []" "list_all is_digit patch"
      unfolding matches_pattern_def by blast
    from m(8,9) obtain d patch' where p: "patch = d # patch'" "is_digit d" by (cases patch) auto
    have "dot_digits_dot_digits (c1 # minor @ c2 # d # patch' @ rest)"
      unfolding dot_digits_dot_digits_iff using m(4-7) p(2) by blast
    moreover have "v = ''Neo4j/'' @ (major @ c1 # minor @ c2 # d # patch' @ rest)"
      using m(1) p(1) by simp
    ultimately show "\<exists>s ds rest. v = ''Neo4j/'' @ s \<and> s = ds @ rest \<and> ds \<noteq> [] \<and> list_all is_digit ds
        \<and> dot_digits_dot_digits rest"
      using m(2,3) by blast
  qed
  finally show ?thesis .
qed

subsection \<open>\<open>init\<close> by the number of failed attempts\<close>


text \<open>init after n failed attempts and one that succeeds, n within the retries.\<close>

lemma init_connected:
  assumes "new_driver env (make_config url' user password database' options') = None"
    and "\<forall>k<n. \<exists>r. verifyConnectivity env (drivers w + k) = Inl r"
    and "verifyConnectivity env (drivers w + n) = Inr info"
    and "n \<le> 5"
  shows "init env url' user password database' options' w =
     (let w1 = emit (concat (map (\<lambda>k. retry_events (drivers w + k)) [0..<n]) @ attempt_events (drivers w + n)
                     @ [ConsoleLog ''Neo4j Server:''])
                 (w\<lparr>config_var := Some (make_config url' user password database' options'),
                    driver_var := Some (drivers w + n), drivers := Suc (drivers w + n)\<rparr>)
      in case version_exec (version info) of
           None \<Rightarrow> (Inl (Thrown TypeError), w1)
         | Some major \<Rightarrow>
             (Inr info, emit [OnExit] (if nat_of_dec major > 3 then w1\<lparr>multiDBSupport := True\<rparr> else w1)))"
proof -
  let ?w0 = "w\<lparr>config_var := Some (make_config url' user password database' options')\<rparr>"
  have "connect env 5 ?w0 =
           (Inr info,
            emit (concat (map (\<lambda>k. retry_events (drivers ?w0 + k)) [0..<n]) @ attempt_events (drivers ?w0 + n))
              (?w0\<lparr>driver_var := Some (drivers ?w0 + n), drivers := Suc (drivers ?w0 + n)\<rparr>))"
    using assms by (intro connect_retry [where cfg = "make_config url' user password database' options'"]) simp_all
  then show ?thesis
    by (simp add: init_def Let_def emit_def split: option.splits)
qed

lemma init_exhausted:
  assumes "new_driver env (make_config url' user password database' options') = None"
    and "\<forall>k\<le>5. \<exists>r. verifyConnectivity env (drivers w + k) = Inl r"
  shows "fst (init env url' user password database' options' w) = verifyConnectivity env (drivers w + 5)"
proof -
  let ?w0 = "w\<lparr>config_var := Some (make_config url' user password database' options')\<rparr>"
  have c: "fst (connect env 5 ?w0) = verifyConnectivity env (drivers ?w0 + 5)"
    using assms by (intro connect_exhausted [where cfg = "make_config url' user password database' options'"]) simp_all
  from assms(2) obtain r where r: "verifyConnectivity env (drivers w + 5) = Inl r" by force
  obtain res w1 where cw: "connect env 5 ?w0 = (res, w1)" by (cases "connect env 5 ?w0")
  with c r have "res = Inl r" by simp
  with cw r show ?thesis by (simp add: init_def)
qed

text \<open>With N failures and then a success, init resolves exactly when N is at most 5.\<close>

lemma init_resolves_iff:
  assumes "new_driver env (make_config url' user password database' options') = None"
    and "\<forall>k<n. \<exists>r. verifyConnectivity env (drivers w + k) = Inl r"
    and "verifyConnectivity env (drivers w + n) = Inr info"
    and "matches_pattern (version info)"
  shows "(\<exists>i. fst (init env url' user password database' options' w) = Inr i) \<longleftrightarrow> n \<le> 5"
proof (cases "n \<le> 5")
  case True
  from assms(4) obtain major where "version_exec (version info) = Some major"
    using version_exec_Some_iff by blast
  with init_connected [OF assms(1-3) True] True show ?thesis by (simp add: Let_def)
next
  case False
  then have "\<forall>k\<le>5. \<exists>r. verifyConnectivity env (drivers w + k) = Inl r" using assms(2) by simp
  from init_exhausted [OF assms(1) this] assms(2) False show ?thesis
    by (metis Inl_Inr_False not_le_imp_less)
qed

text \<open>
  C1. \<open>init\<close> does not stop at five attempts: \<open>connect 5\<close> makes a first attempt and up to
  five more. When the first five attempts fail and the sixth succeeds, \<open>init\<close> resolves with
  the server's info, after six calls of \<^verbatim>\<open>verifyConnectivity\<close> and five timers of 5000 ms.
\<close>

theorem init_sixth_attempt:
  "init \<lparr>new_driver = (\<lambda>c. None),
         verifyConnectivity = (\<lambda>k. if k < 5 then Inl (Neo4jError ''ServiceUnavailable'')
                                      else Inr \<lparr>address = ''localhost:7687'', version = ''Neo4j/4.4.12''\<rparr>),
         session_read = (\<lambda>q p. Inr []), session_write = (\<lambda>q p. Inr []),
         txc_run = (\<lambda>k q p. Inr []), txc_commit = None, txc_rollback = None\<rparr>
     ''neo4j://localhost'' ''neo4j'' ''secret'' None None
     \<lparr>config_var = None, driver_var = None, multiDBSupport = False, drivers = 0, trace = []\<rparr>
   = (Inr \<lparr>address = ''localhost:7687'', version = ''Neo4j/4.4.12''\<rparr>,
      \<lparr>config_var = Some (make_config ''neo4j://localhost'' ''neo4j'' ''secret'' None None),
       driver_var = Some 5, multiDBSupport = True, drivers = 6,
       trace = retry_events 0 @ retry_events 1 @ retry_events 2 @ retry_events 3 @ retry_events 4
               @ [NewDriver 5, VerifyConnectivity 5, ConsoleLog ''Neo4j Server:'', OnExit]\<rparr>)"
  by (simp add: init_def connect.simps emit_def retry_events_def version_exec_def digit_runs_def
      is_digit_def line_terminator_def nat_of_dec_def digit_val_def)



section \<open>Properties of the transaction helpers\<close>

lemma emit_Nil [simp]: "emit [] w = w"
  by (simp add: emit_def)

lemma run_statements_ok:
  assumes "length recs = length ss"
    and "\<forall>i<length ss. txc_run env (k + i) (statement (ss ! i)) (parameters (ss ! i)) = Inr (recs ! i)"
  shows "run_statements env k ss results w =
           (Inr (results @ map (\<lambda>r. extractRecords (Records r)) recs), emit (map run_event ss) w)"
  using assms
proof (induction ss arbitrary: k recs results w)
  case Nil
  then show ?case by simp
next
  case (Cons s ss)
  from Cons.prems(1) obtain r rs where recs: "recs = r # rs" "length rs = length ss"
    by (cases recs) auto
  from Cons.prems(2) have r: "txc_run env k (statement s) (parameters s) = Inr r"
    using recs(1) by force
  have rest: "\<forall>i<length ss. txc_run env (Suc k + i) (statement (ss ! i)) (parameters (ss ! i)) = Inr (rs ! i)"
  proof (intro allI impI)
    fix i assume "i < length ss"
    then have "Suc i < length (s # ss)" by simp
    with Cons.prems(2) have "txc_run env (k + Suc i) (statement ((s # ss) ! Suc i)) (parameters ((s # ss) ! Suc i))
        = Inr (recs ! Suc i)" by blast
    then show "txc_run env (Suc k + i) (statement (ss ! i)) (parameters (ss ! i)) = Inr (rs ! i)"
      by (simp add: recs(1))
  qed
  show ?case
    by (simp add: r Cons.IH [OF recs(2) rest] recs(1) emit_emit run_event_def)
qed

lemma run_statements_fail:
  assumes "j < length ss"
    and "\<forall>i<j. \<exists>r. txc_run env (k + i) (statement (ss ! i)) (parameters (ss ! i)) = Inr r"
    and "txc_run env (k + j) (statement (ss ! j)) (parameters (ss ! j)) = Inl e"
  shows "run_statements env k ss results w = (Inl e, emit (map run_event (take (Suc j) ss)) w)"
  using assms
proof (induction ss arbitrary: j k results w)
  case Nil
  then show ?case by simp
next
  case (Cons s ss)
  show ?case
  proof (cases j)
    case 0
    with Cons.prems(3) show ?thesis by (simp add: run_event_def)
  next
    case (Suc j')
    from Cons.prems(2) Suc obtain r where r: "txc_run env k (statement s) (parameters s) = Inr r"
      by force
    have j': "j' < length ss" using Cons.prems(1) Suc by simp
    have oks: "\<forall>i<j'. \<exists>r. txc_run env (Suc k + i) (statement (ss ! i)) (parameters (ss ! i)) = Inr r"
    proof (intro allI impI)
      fix i assume "i < j'"
      then have "Suc i < j" using Suc by simp
      with Cons.prems(2) have "\<exists>r. txc_run env (k + Suc i) (statement ((s # ss) ! Suc i)) (parameters ((s # ss) ! Suc i)) = Inr r"
        by blast
      then show "\<exists>r. txc_run env (Suc k + i) (statement (ss ! i)) (parameters (ss ! i)) = Inr r" by simp
    qed
    have bad: "txc_run env (Suc k + j') (statement (ss ! j')) (parameters (ss ! j')) = Inl e"
      using Cons.prems(3) Suc by simp
    show ?thesis
      by (simp add: r Cons.IH [OF j' oks bad] Suc emit_emit run_event_def)
  qed
qed

lemma run_statements_events:
  "\<exists>m. snd (run_statements env k ss results w) = emit (map run_event (take m ss)) w"
proof (induction ss arbitrary: k results w)
  case Nil
  then show ?case by simp
next
  case (Cons s ss)
  show ?case
  proof (cases "txc_run env k (statement s) (parameters s)")
    case (Inl e)
    then have "snd (run_statements env k (s # ss) results w) = emit (map run_event (take 1 (s # ss))) w"
      by (simp add: run_event_def)
    then show ?thesis by blast
  next
    case (Inr r)
    from Cons.IH obtain m where
      "snd (run_statements env (Suc k) ss (results @ [extractRecords (Records r)])
             (emit [Run (statement s) (parameters s)] w))
       = emit (map run_event (take m ss)) (emit [Run (statement s) (parameters s)] w)" by blast
    then have "snd (run_statements env k (s # ss) results w) = emit (map run_event (take (Suc m) (s # ss))) w"
      by (simp add: Inr emit_emit run_event_def)
    then show ?thesis by blast
  qed
qed

lemma multipleStatements_committed:
  assumes "driver_var w = Some d" and "session_database w = Inr db"
    and "length recs = length statements"
    and "\<forall>k<length statements.
           txc_run env k (statement (statements ! k)) (parameters (statements ! k)) = Inr (recs ! k)"
    and "txc_commit env = None"
  shows "multipleStatements env statements w =
           (Inr (VArr (map (\<lambda>r. extractRecords (Records r)) recs)),
            emit ([OpenSession d db WRITE, BeginTransaction] @ map run_event statements
                  @ [Commit, CloseSession]) w)"
proof -
  have "run_statements env 0 statements [] (emit [OpenSession d db WRITE, BeginTransaction] w) =
          (Inr (map (\<lambda>r. extractRecords (Records r)) recs),
           emit (map run_event statements) (emit [OpenSession d db WRITE, BeginTransaction] w))"
    using run_statements_ok [OF assms(3), of env 0 "[]"] assms(4) by simp
  then show ?thesis
    using assms(1,2,5)
    by (simp add: multipleStatements_def try_catch_finally_def txc_commit_call_def session_close_def
        emit_emit)
qed

lemma multipleStatements_commit_failed:
  assumes "driver_var w = Some d" and "session_database w = Inr db"
    and "length recs = length statements"
    and "\<forall>k<length statements.
           txc_run env k (statement (statements ! k)) (parameters (statements ! k)) = Inr (recs ! k)"
    and "txc_commit env = Some e"
  shows "multipleStatements env statements w =
           (Inl (case txc_rollback env of None \<Rightarrow> e | Some e2 \<Rightarrow> e2),
            emit ([OpenSession d db WRITE, BeginTransaction] @ map run_event statements
                  @ [Commit, Rollback, CloseSession]) w)"
proof -
  have "run_statements env 0 statements [] (emit [OpenSession d db WRITE, BeginTransaction] w) =
          (Inr (map (\<lambda>r. extractRecords (Records r)) recs),
           emit (map run_event statements) (emit [OpenSession d db WRITE, BeginTransaction] w))"
    using run_statements_ok [OF assms(3), of env 0 "[]"] assms(4) by simp
  then show ?thesis
    using assms(1,2,5)
    by (simp add: multipleStatements_def try_catch_finally_def txc_commit_call_def
        txc_rollback_call_def session_close_def emit_emit split: option.splits)
qed

lemma multipleStatements_statement_failed:
  assumes "driver_var w = Some d" and "session_database w = Inr db"
    and "j < length statements"
    and "\<forall>k<j. \<exists>r. txc_run env k (statement (statements ! k)) (parameters (statements ! k)) = Inr r"
    and "txc_run env j (statement (statements ! j)) (parameters (statements ! j)) = Inl e"
  shows "multipleStatements env statements w =
           (Inl (case txc_rollback env of None \<Rightarrow> e | Some e2 \<Rightarrow> e2),
            emit ([OpenSession d db WRITE, BeginTransaction] @ map run_event (take (Suc j) statements)
                  @ [Rollback, CloseSession]) w)"
proof -
  have "run_statements env 0 statements [] (emit [OpenSession d db WRITE, BeginTransaction] w) =
          (Inl e, emit (map run_event (take (Suc j) statements))
                    (emit [OpenSession d db WRITE, BeginTransaction] w))"
    using run_statements_fail [OF assms(3), of env 0 e "[]"] assms(4,5) by simp
  then show ?thesis
    using assms(1,2)
    by (simp add: multipleStatements_def try_catch_finally_def
        txc_rollback_call_def session_close_def emit_emit split: option.splits)
qed

lemma session_event_run: "list_all (\<lambda>e. \<not> session_event e) (map run_event ss)"
  by (induction ss) (simp_all add: run_event_def)

lemma readTransaction_session:
  assumes "driver_var w = Some d" and "session_database w = Inr db"
  shows "readTransaction env query params w =
           (case session_read env query (params_or_empty params) of
              Inl e \<Rightarrow> Inl e | Inr records \<Rightarrow> Inr (extractRecords (Records records)),
            emit [OpenSession d db READ, ReadTransaction query (params_or_empty params), CloseSession] w)"
  using assms
  by (cases "session_read env query (params_or_empty params)")
     (simp_all add: readTransaction_def try_catch_finally_def session_close_def emit_emit)

lemma writeTransaction_session:
  assumes "driver_var w = Some d" and "session_database w = Inr db"
  shows "writeTransaction env query params w =
           (case session_write env query (params_or_empty params) of
              Inl e \<Rightarrow> Inl e | Inr records \<Rightarrow> Inr (extractRecords (Records records)),
            emit [OpenSession d db WRITE, WriteTransaction query (params_or_empty params), CloseSession] w)"
  using assms
  by (cases "session_write env query (params_or_empty params)")
     (simp_all add: writeTransaction_def try_catch_finally_def session_close_def emit_emit)

lemma multipleStatements_session:
  assumes "driver_var w = Some d" and "session_database w = Inr db"
  shows "\<exists>r mid. multipleStatements env statements w =
           (r, emit (OpenSession d db WRITE # mid @ [CloseSession]) w)
         \<and> list_all (\<lambda>e. \<not> session_event e) mid"
proof -
  let ?w1 = "emit [OpenSession d db WRITE, BeginTransaction] w"
  obtain m where m: "snd (run_statements env 0 statements [] ?w1) = emit (map run_event (take m statements)) ?w1"
    using run_statements_events by blast
  obtain r1 w1 where rs: "run_statements env 0 statements [] ?w1 = (r1, w1)"
    by (cases "run_statements env 0 statements [] ?w1")
  with m have w1: "w1 = emit (map run_event (take m statements)) ?w1" by simp
  have ev: "list_all (\<lambda>e. \<not> session_event e) (map run_event (take m statements))"
    by (rule session_event_run)
  show ?thesis
  proof (cases r1)
    case (Inl e)
    have "multipleStatements env statements w =
            (Inl (case txc_rollback env of None \<Rightarrow> e | Some e2 \<Rightarrow> e2),
             emit (OpenSession d db WRITE # (BeginTransaction # map run_event (take m statements) @ [Rollback])
                   @ [CloseSession]) w)"
      using assms rs Inl w1
      by (simp add: multipleStatements_def try_catch_finally_def
          txc_rollback_call_def session_close_def emit_emit split: option.splits)
    moreover have "list_all (\<lambda>e. \<not> session_event e)
        (BeginTransaction # map run_event (take m statements) @ [Rollback])"
      using ev by simp
    ultimately show ?thesis by blast
  next
    case (Inr results)
    show ?thesis
    proof (cases "txc_commit env")
      case None
      have "multipleStatements env statements w =
              (Inr (VArr results),
               emit (OpenSession d db WRITE # (BeginTransaction # map run_event (take m statements) @ [Commit])
                     @ [CloseSession]) w)"
        using assms rs Inr w1 None
        by (simp add: multipleStatements_def try_catch_finally_def txc_commit_call_def
            session_close_def emit_emit)
      moreover have "list_all (\<lambda>e. \<not> session_event e)
          (BeginTransaction # map run_event (take m statements) @ [Commit])"
        using ev by simp
      ultimately show ?thesis by blast
    next
      case (Some e)
      have "multipleStatements env statements w =
              (Inl (case txc_rollback env of None \<Rightarrow> e | Some e2 \<Rightarrow> e2),
               emit (OpenSession d db WRITE #
                       (BeginTransaction # map run_event (take m statements) @ [Commit, Rollback])
                     @ [CloseSession]) w)"
        using assms rs Inr w1 Some
        by (simp add: multipleStatements_def try_catch_finally_def txc_commit_call_def
            txc_rollback_call_def session_close_def emit_emit split: option.splits)
      moreover have "list_all (\<lambda>e. \<not> session_event e)
          (BeginTransaction # map run_event (take m statements) @ [Commit, Rollback])"
        using ev by simp
      ultimately show ?thesis by blast
    qed
  qed
qed

lemma events_since_emit [simp]: "events_since w (emit evs w) = evs"
  by (simp add: events_since_def)

lemma all_succeed_results:
  assumes "all_succeed env statements"
  shows "length (results_of env statements) = length statements"
    and "\<forall>k<length statements.
           txc_run env k (statement (statements ! k)) (parameters (statements ! k))
             = Inr (results_of env statements ! k)"
proof -
  show "length (results_of env statements) = length statements" by (simp add: results_of_def)
  show "\<forall>k<length statements.
           txc_run env k (statement (statements ! k)) (parameters (statements ! k))
             = Inr (results_of env statements ! k)"
  proof (intro allI impI)
    fix k assume k: "k < length statements"
    with assms obtain r where "txc_run env k (statement (statements ! k)) (parameters (statements ! k)) = Inr r"
      unfolding all_succeed_def by blast
    then show "txc_run env k (statement (statements ! k)) (parameters (statements ! k))
             = Inr (results_of env statements ! k)"
      using k by (simp add: results_of_def)
  qed
qed

lemma first_failure:
  assumes "\<not> all_succeed env statements"
  obtains j e where "j < length statements"
    and "\<forall>k<j. \<exists>r. txc_run env k (statement (statements ! k)) (parameters (statements ! k)) = Inr r"
    and "txc_run env j (statement (statements ! j)) (parameters (statements ! j)) = Inl e"
proof -
  let ?bad = "\<lambda>k. k < length statements \<and>
      (\<forall>r. txc_run env k (statement (statements ! k)) (parameters (statements ! k)) \<noteq> Inr r)"
  from assms have ex: "\<exists>k. ?bad k" unfolding all_succeed_def by blast
  define j where "j = (LEAST k. ?bad k)"
  have j: "?bad j" unfolding j_def using ex by (rule LeastI_ex)
  have least: "\<And>k. k < j \<Longrightarrow> \<not> ?bad k" unfolding j_def by (rule not_less_Least)
  obtain e where e: "txc_run env j (statement (statements ! j)) (parameters (statements ! j)) = Inl e"
    using j by (cases "txc_run env j (statement (statements ! j)) (parameters (statements ! j))") auto
  have "\<forall>k<j. \<exists>r. txc_run env k (statement (statements ! k)) (parameters (statements ! k)) = Inr r"
  proof (intro allI impI)
    fix k assume "k < j"
    with least [of k] j show "\<exists>r. txc_run env k (statement (statements ! k)) (parameters (statements ! k)) = Inr r"
      by auto
  qed
  with j e that show thesis by blast
qed

lemma run_event_neq [simp]:
  "Commit \<notin> run_event ` S" "Rollback \<notin> run_event ` S"
  by (auto simp: run_event_def)

text \<open>
  C2. With the driver initialized, \<open>multipleStatements\<close> opens one session and one
  transaction and runs the statements in order, up to the first that fails. \<^verbatim>\<open>commit\<close> is
  called exactly when every statement has succeeded. When every statement and the commit
  succeed, the call resolves with the normalized records of the statements, in the order
  of the statements, and \<^verbatim>\<open>rollback\<close> is not called. In every other case \<^verbatim>\<open>rollback\<close> is
  called and the call rejects: no result is returned.
\<close>

theorem multipleStatements_atomic:
  assumes "driver_var w = Some d" and "session_database w = Inr db"
  shows "(Commit \<in> set (events_since w (snd (multipleStatements env statements w)))
            \<longleftrightarrow> all_succeed env statements)
    \<and> (all_succeed env statements \<and> txc_commit env = None \<longrightarrow>
          multipleStatements env statements w =
            (Inr (VArr (map (\<lambda>r. extractRecords (Records r)) (results_of env statements))),
             emit ([OpenSession d db WRITE, BeginTransaction] @ map run_event statements
                   @ [Commit, CloseSession]) w))
    \<and> (\<not> (all_succeed env statements \<and> txc_commit env = None) \<longrightarrow>
          Rollback \<in> set (events_since w (snd (multipleStatements env statements w)))
          \<and> (\<exists>e. fst (multipleStatements env statements w) = Inl e))
    \<and> (\<exists>m\<le>length statements. \<exists>end.
          events_since w (snd (multipleStatements env statements w))
            = [OpenSession d db WRITE, BeginTransaction] @ map run_event (take m statements) @ end
          \<and> end \<in> {[Commit, CloseSession], [Commit, Rollback, CloseSession], [Rollback, CloseSession]})"
proof -
  let ?run = "multipleStatements env statements w"
  let ?evs = "events_since w (snd ?run)"
  let ?shape = "\<exists>m\<le>length statements. \<exists>end.
          ?evs = [OpenSession d db WRITE, BeginTransaction] @ map run_event (take m statements) @ end
          \<and> end \<in> {[Commit, CloseSession], [Commit, Rollback, CloseSession], [Rollback, CloseSession]}"
  show ?thesis
  proof (cases "all_succeed env statements")
    case True
    note r = all_succeed_results [OF True]
    show ?thesis
    proof (cases "txc_commit env")
      case None
      note eq = multipleStatements_committed [OF assms r None]
      have evs: "?evs = [OpenSession d db WRITE, BeginTransaction] @ map run_event statements @ [Commit, CloseSession]"
        by (simp add: eq)
      have "?evs = [OpenSession d db WRITE, BeginTransaction]
                     @ map run_event (take (length statements) statements) @ [Commit, CloseSession]"
        by (simp add: evs)
      then have ?shape by blast
      moreover have "Commit \<in> set ?evs" by (simp add: evs)
      ultimately show ?thesis using True None eq by simp
    next
      case (Some e)
      note eq = multipleStatements_commit_failed [OF assms r Some]
      have evs: "?evs = [OpenSession d db WRITE, BeginTransaction] @ map run_event statements
                          @ [Commit, Rollback, CloseSession]"
        by (simp add: eq)
      have "?evs = [OpenSession d db WRITE, BeginTransaction]
                     @ map run_event (take (length statements) statements) @ [Commit, Rollback, CloseSession]"
        by (simp add: evs)
      then have ?shape by blast
      moreover have "Commit \<in> set ?evs" "Rollback \<in> set ?evs" by (simp_all add: evs)
      moreover have "\<exists>e. fst ?run = Inl e" by (simp add: eq)
      ultimately show ?thesis using True Some by simp
    qed
  next
    case False
    then obtain j e where j: "j < length statements"
      "\<forall>k<j. \<exists>r. txc_run env k (statement (statements ! k)) (parameters (statements ! k)) = Inr r"
      "txc_run env j (statement (statements ! j)) (parameters (statements ! j)) = Inl e"
      by (rule first_failure)
    note eq = multipleStatements_statement_failed [OF assms j]
    have evs: "?evs = [OpenSession d db WRITE, BeginTransaction] @ map run_event (take (Suc j) statements)
                        @ [Rollback, CloseSession]"
      by (simp add: eq)
    have "Suc j \<le> length statements" using j(1) by simp
    with evs have ?shape by blast
    moreover have "Commit \<notin> set ?evs" "Rollback \<in> set ?evs" by (simp_all add: evs)
    moreover have "\<exists>e. fst ?run = Inl e" by (simp add: eq)
    ultimately show ?thesis using False by simp
  qed
qed

theorem multipleStatements_atomic_witness:
  "driver_var \<lparr>config_var = None, driver_var = Some 0, multiDBSupport = False, drivers = 1, trace = []\<rparr> = Some 0
   \<and> session_database \<lparr>config_var = None, driver_var = Some 0, multiDBSupport = False, drivers = 1, trace = []\<rparr>
       = Inr None
   \<and> multipleStatements
        \<lparr>new_driver = (\<lambda>c. None), verifyConnectivity = (\<lambda>k. Inl (Neo4jError ''unused'')),
         session_read = (\<lambda>q p. Inr []), session_write = (\<lambda>q p. Inr []),
         txc_run = (\<lambda>k q p. if k = 1 then Inl (Neo4jError ''SyntaxError'') else Inr [[(''n'', VInt 1)]]),
         txc_commit = None, txc_rollback = None\<rparr>
        [\<lparr>statement = ''A'', parameters = VObj []\<rparr>, \<lparr>statement = ''B'', parameters = VObj []\<rparr>,
         \<lparr>statement = ''C'', parameters = VObj []\<rparr>]
        \<lparr>config_var = None, driver_var = Some 0, multiDBSupport = False, drivers = 1, trace = []\<rparr>
      = (Inl (Neo4jError ''SyntaxError''),
         \<lparr>config_var = None, driver_var = Some 0, multiDBSupport = False, drivers = 1,
          trace = [OpenSession 0 None WRITE, BeginTransaction, Run ''A'' (VObj []), Run ''B'' (VObj []),
                   Rollback, CloseSession]\<rparr>)
   \<and> multipleStatements
        \<lparr>new_driver = (\<lambda>c. None), verifyConnectivity = (\<lambda>k. Inl (Neo4jError ''unused'')),
         session_read = (\<lambda>q p. Inr []), session_write = (\<lambda>q p. Inr []),
         txc_run = (\<lambda>k q p. Inr [[(''n'', VInt (int k))]]),
         txc_commit = None, txc_rollback = None\<rparr>
        [\<lparr>statement = ''A'', parameters = VObj []\<rparr>, \<lparr>statement = ''B'', parameters = VObj []\<rparr>]
        \<lparr>config_var = None, driver_var = Some 0, multiDBSupport = False, drivers = 1, trace = []\<rparr>
      = (Inr (VArr [VArr [VObj [(''n'', VNum 0)]], VArr [VObj [(''n'', VNum 1)]]]),
         \<lparr>config_var = None, driver_var = Some 0, multiDBSupport = False, drivers = 1,
          trace = [OpenSession 0 None WRITE, BeginTransaction, Run ''A'' (VObj []), Run ''B'' (VObj []),
                   Commit, CloseSession]\<rparr>)"
  using multipleStatements_atomic
    [where w = "\<lparr>config_var = None, driver_var = Some 0, multiDBSupport = False, drivers = 1, trace = []\<rparr>"
       and d = 0 and db = None
       and env = "\<lparr>new_driver = (\<lambda>c. None), verifyConnectivity = (\<lambda>k. Inl (Neo4jError ''unused'')),
         session_read = (\<lambda>q p. Inr []), session_write = (\<lambda>q p. Inr []),
         txc_run = (\<lambda>k q p. Inr [[(''n'', VInt (int k))]]),
         txc_commit = None, txc_rollback = None\<rparr>"
       and statements = "[\<lparr>statement = ''A'', parameters = VObj []\<rparr>, \<lparr>statement = ''B'', parameters = VObj []\<rparr>]"]
  by (simp add: session_database_def multipleStatements_def try_catch_finally_def
      txc_commit_call_def txc_rollback_call_def session_close_def emit_def extract_one_def
      record_keys_def record_get_def obj_set_def inSafeRange_def MIN_SAFE_VALUE_def
      MAX_SAFE_VALUE_def toNumber_def)

text \<open>Without a driver no session is opened: the three helpers reject at once.\<close>

lemma uninitialized_rejects:
  assumes "driver_var w = None"
  shows "readTransaction env query params w = (Inl (Message ''Neo4j driver not initialized!''), w)"
    and "writeTransaction env query params w = (Inl (Message ''Neo4j driver not initialized!''), w)"
    and "multipleStatements env statements w = (Inl (Message ''Neo4j driver not initialized!''), w)"
  using assms by (simp_all add: readTransaction_def writeTransaction_def multipleStatements_def)

text \<open>
  C6. Whenever one of \<open>readTransaction\<close>, \<open>writeTransaction\<close> and \<open>multipleStatements\<close> opens a
  session, the events of the call are the opening of the session, events that neither open
  nor close a session, and \<^verbatim>\<open>session.close()\<close> as the last event before the promise
  settles. This holds for every answer of the driver: a transaction that succeeds, a
  statement that fails, a commit that fails, a rollback that fails.
\<close>

theorem session_closed_on_every_path:
  assumes "driver_var w = Some d" and "session_database w = Inr db"
  shows "(\<exists>r mid. readTransaction env query params w
                     = (r, emit (OpenSession d db READ # mid @ [CloseSession]) w)
                   \<and> list_all (\<lambda>e. \<not> session_event e) mid)
    \<and> (\<exists>r mid. writeTransaction env query params w
                     = (r, emit (OpenSession d db WRITE # mid @ [CloseSession]) w)
                   \<and> list_all (\<lambda>e. \<not> session_event e) mid)
    \<and> (\<exists>r mid. multipleStatements env statements w
                     = (r, emit (OpenSession d db WRITE # mid @ [CloseSession]) w)
                   \<and> list_all (\<lambda>e. \<not> session_event e) mid)"
proof (intro conjI)
  have "readTransaction env query params w =
          (case session_read env query (params_or_empty params) of
              Inl e \<Rightarrow> Inl e | Inr records \<Rightarrow> Inr (extractRecords (Records records)),
           emit (OpenSession d db READ # [ReadTransaction query (params_or_empty params)] @ [CloseSession]) w)"
    using readTransaction_session [OF assms] by simp
  moreover have "list_all (\<lambda>e. \<not> session_event e) [ReadTransaction query (params_or_empty params)]"
    by simp
  ultimately show "\<exists>r mid. readTransaction env query params w
                     = (r, emit (OpenSession d db READ # mid @ [CloseSession]) w)
                   \<and> list_all (\<lambda>e. \<not> session_event e) mid" by blast
next
  have "writeTransaction env query params w =
          (case session_write env query (params_or_empty params) of
              Inl e \<Rightarrow> Inl e | Inr records \<Rightarrow> Inr (extractRecords (Records records)),
           emit (OpenSession d db WRITE # [WriteTransaction query (params_or_empty params)] @ [CloseSession]) w)"
    using writeTransaction_session [OF assms] by simp
  moreover have "list_all (\<lambda>e. \<not> session_event e) [WriteTransaction query (params_or_empty params)]"
    by simp
  ultimately show "\<exists>r mid. writeTransaction env query params w
                     = (r, emit (OpenSession d db WRITE # mid @ [CloseSession]) w)
                   \<and> list_all (\<lambda>e. \<not> session_event e) mid" by blast
next
  show "\<exists>r mid. multipleStatements env statements w
                     = (r, emit (OpenSession d db WRITE # mid @ [CloseSession]) w)
                   \<and> list_all (\<lambda>e. \<not> session_event e) mid"
    by (rule multipleStatements_session [OF assms])
qed

theorem session_closed_on_every_path_witness:
  "driver_var \<lparr>config_var = Some (make_config ''neo4j://localhost'' ''neo4j'' ''secret'' (Some ''movies'') None),
               driver_var = Some 0, multiDBSupport = True, drivers = 1, trace = []\<rparr> = Some 0
   \<and> session_database
        \<lparr>config_var = Some (make_config ''neo4j://localhost'' ''neo4j'' ''secret'' (Some ''movies'') None),
         driver_var = Some 0, multiDBSupport = True, drivers = 1, trace = []\<rparr> = Inr (Some ''movies'')
   \<and> (let (r, w') = multipleStatements
        \<lparr>new_driver = (\<lambda>c. None), verifyConnectivity = (\<lambda>k. Inl (Neo4jError ''unused'')),
         session_read = (\<lambda>q p. Inr []), session_write = (\<lambda>q p. Inr []),
         txc_run = (\<lambda>k q p. Inl (Neo4jError ''SyntaxError'')),
         txc_commit = None, txc_rollback = Some (Neo4jError ''SessionExpired'')\<rparr>
        [\<lparr>statement = ''A'', parameters = VObj []\<rparr>]
        \<lparr>config_var = Some (make_config ''neo4j://localhost'' ''neo4j'' ''secret'' (Some ''movies'') None),
         driver_var = Some 0, multiDBSupport = True, drivers = 1, trace = []\<rparr>
      in r = Inl (Neo4jError ''SessionExpired'')
         \<and> trace w' = [OpenSession 0 (Some ''movies'') WRITE, BeginTransaction, Run ''A'' (VObj []),
                        Rollback, CloseSession])"
  using session_closed_on_every_path
    [where w = "\<lparr>config_var = Some (make_config ''neo4j://localhost'' ''neo4j'' ''secret'' (Some ''movies'') None),
         driver_var = Some 0, multiDBSupport = True, drivers = 1, trace = []\<rparr>"
       and d = 0 and db = "Some ''movies''"
       and env = "\<lparr>new_driver = (\<lambda>c. None), verifyConnectivity = (\<lambda>k. Inl (Neo4jError ''unused'')),
         session_read = (\<lambda>q p. Inr []), session_write = (\<lambda>q p. Inr []),
         txc_run = (\<lambda>k q p. Inl (Neo4jError ''SyntaxError'')),
         txc_commit = None, txc_rollback = Some (Neo4jError ''SessionExpired'')\<rparr>"
       and statements = "[\<lparr>statement = ''A'', parameters = VObj []\<rparr>]"]
  by (simp add: session_database_def multipleStatements_def try_catch_finally_def
      txc_commit_call_def txc_rollback_call_def session_close_def emit_def make_config_def)

section \<open>What the calls change\<close>

lemma kept_refl [simp]: "kept c c"
  by (cases c) (simp_all add: kept_def)


lemma heap_kept_refl [simp]: "heap_kept h h"
  by (simp add: heap_kept_def)







lemma kept_pruner_refl [simp]: "kept_pruner ak c c"
  by (cases c) (simp_all add: kept_pruner_def)


lemma heap_kept_pruner_refl [simp]: "heap_kept_pruner ak h h"
  by (simp add: heap_kept_pruner_def)









section \<open>The store and the values\<close>

subsection \<open>Array indices\<close>

text \<open>
  The numeral of \<open>i\<close> is the property key of the element \<open>i\<close>: \<^verbatim>\<open>data[i]\<close> and the keys that
  \<^verbatim>\<open>for ... in\<close> gives for an array read the elements.
\<close>

lemma is_digit_digit_char: "d < 10 \<Longrightarrow> is_digit (digit_char d)"
proof -
  assume "d < 10"
  then have "d \<in> {0, Suc 0, 2, 3, 4, 5, 6, 7, 8, 9}" by auto
  then show ?thesis by (auto simp: digit_char_eval is_digit_def)
qed

lemma digit_char_zero: "d < 10 \<Longrightarrow> digit_char d = CHR ''0'' \<Longrightarrow> d = 0"
proof -
  assume d: "d < 10" and "digit_char d = CHR ''0''"
  then have "digit_val (digit_char d) = digit_val (CHR ''0'')" by simp
  with d show "d = 0" by (simp add: digit_val_digit_char) (simp add: digit_val_def)
qed

lemma dec_nat_digits: "list_all is_digit (dec_nat n)"
proof (induction n rule: dec_nat.induct)
  case (1 n)
  show ?case
  proof (cases "n < 10")
    case True
    then show ?thesis by (subst dec_nat.simps) (simp add: is_digit_digit_char)
  next
    case False
    with "1.IH" show ?thesis by (subst dec_nat.simps) (simp add: is_digit_digit_char)
  qed
qed

lemma dec_nat_no_leading_zero: "0 < n \<Longrightarrow> hd (dec_nat n) \<noteq> CHR ''0''"
proof (induction n rule: dec_nat.induct)
  case (1 n)
  show ?case
  proof (cases "n < 10")
    case True
    with "1.prems" digit_char_zero [of n] show ?thesis by (subst dec_nat.simps) auto
  next
    case False
    then have pos: "0 < n div 10" by simp
    obtain d cs where "dec_nat (n div 10) = digit_char d # cs" using dec_nat_head by blast
    then have "hd (dec_nat n) = hd (dec_nat (n div 10))"
      using False by (subst dec_nat.simps) simp
    with "1.IH" [OF False pos] show ?thesis by simp
  qed
qed

lemma array_index_dec_nat: "array_index (dec_nat i) = Some i"
proof -
  obtain d cs where "dec_nat i = digit_char d # cs" using dec_nat_head by blast
  then have ne: "dec_nat i \<noteq> []" by simp
  have z: "dec_nat i = ''0'' \<or> hd (dec_nat i) \<noteq> CHR ''0''"
  proof (cases "i = 0")
    case True
    then show ?thesis by (subst dec_nat.simps) (simp add: digit_char_eval)
  next
    case False
    then show ?thesis using dec_nat_no_leading_zero [of i] by simp
  qed
  show ?thesis
    using ne z dec_nat_digits [of i] by (simp add: array_index_def nat_of_dec_dec_nat)
qed

lemma hget_prop_index:
  assumes "heap_get h a = Some (HArr xs)" and "i < length xs"
  shows "hget_prop h (HRef a) (dec_nat i) = xs ! i"
  using assms by (simp add: hget_prop_def array_index_dec_nat)

lemma get_prop_index: "i < length xs \<Longrightarrow> get_prop (VArr xs) (dec_nat i) = xs ! i"
  by (simp add: array_index_dec_nat)

subsection \<open>The two translations on examples\<close>

text \<open>
  On a store laid out as a tree the translation over the store and the translation over
  values give the same: the value read from the store after the call is the value the
  function over values returns.
\<close>

lemma translations_agree_example:
  "read_value 4 [HObj [(''n'', HRef 1), (''xs'', HRef 2)], HInt 5, HArr [HRef 3, HNull], HTemporal Date ''2020-01-31'']
     (HRef 0)
   = Some (VObj [(''n'', VInt 5), (''xs'', VArr [VTemporal Date ''2020-01-31'', VNull])])"
  "convertValues_heap 4 (HRef 0)
     [HObj [(''n'', HRef 1), (''xs'', HRef 2)], HInt 5, HArr [HRef 3, HNull], HTemporal Date ''2020-01-31'']
   = Some (HRef 0,
       [HObj [(''n'', HNum 5), (''xs'', HRef 4)], HInt 5, HArr [HRef 3, HNull], HTemporal Date ''2020-01-31'',
        HArr [HStr ''2020-01-31'', HNull]])"
  "read_value 4
     [HObj [(''n'', HNum 5), (''xs'', HRef 4)], HInt 5, HArr [HRef 3, HNull], HTemporal Date ''2020-01-31'',
      HArr [HStr ''2020-01-31'', HNull]] (HRef 0)
   = Some (convertValues (VObj [(''n'', VInt 5), (''xs'', VArr [VTemporal Date ''2020-01-31'', VNull])]))"
  by code_simp+

lemma translations_agree_example_pruner:
  "read_value 8
     [HArr [HRef 1], HObj [(''name'', HStr ''Alex''), (''friends'', HRef 2)], HArr [HRef 3],
      HObj [(''name'', HStr ''Bob''), (''friends'', HRef 4)], HArr [HRef 5], HObj [(''name'', HNull)]]
     (HRef 0)
   = Some (VArr [VObj [(''name'', VStr ''Alex''),
        (''friends'', VArr [VObj [(''name'', VStr ''Bob''), (''friends'', VArr [VObj [(''name'', VNull)]])]])]])"
  "removeEmptyArrays_heap 8 (HRef 0) ''friends'' ''name''
     [HArr [HRef 1], HObj [(''name'', HStr ''Alex''), (''friends'', HRef 2)], HArr [HRef 3],
      HObj [(''name'', HStr ''Bob''), (''friends'', HRef 4)], HArr [HRef 5], HObj [(''name'', HNull)]]
   = Some (Inr
     [HArr [HRef 1], HObj [(''name'', HStr ''Alex''), (''friends'', HRef 2)], HArr [HRef 3],
      HObj [(''name'', HStr ''Bob''), (''friends'', HRef 6)], HArr [HRef 5], HObj [(''name'', HNull)],
      HArr []])"
  "map_option (\<lambda>v. case v of VArr xs \<Rightarrow> Inr xs | _ \<Rightarrow> Inl TypeError)
     (read_value 8
       [HArr [HRef 1], HObj [(''name'', HStr ''Alex''), (''friends'', HRef 2)], HArr [HRef 3],
        HObj [(''name'', HStr ''Bob''), (''friends'', HRef 6)], HArr [HRef 5], HObj [(''name'', HNull)],
        HArr []] (HRef 0))
   = Some (removeEmptyArrays
       [VObj [(''name'', VStr ''Alex''),
        (''friends'', VArr [VObj [(''name'', VStr ''Bob''), (''friends'', VArr [VObj [(''name'', VNull)]])]])]]
       ''friends'' ''name'')"
  by code_simp+

end
